theory Spec2Isabelle
  imports Main "HOL-Library.Char_ord" "HOL-Library.List_Lexorder" "HOL-Library.Multiset"
begin

section \<open>Go strings, panics and strconv.Atoi\<close>

text \<open>
  A Go string is a sequence of bytes, here a \<^typ>\<open>string\<close>. Go compares strings
  bytewise and lexicographically, a proper prefix being smaller: that is the order
  of \<^typ>\<open>char list\<close> given by the character codes.

  A slice expression \<^verbatim>\<open>s[:n]\<close> panics when \<^verbatim>\<open>n > len(s)\<close>, and so does an index
  expression out of range; a panic in a goroutine ends the process. Every function
  below that can panic returns \<open>go_panic + 'a\<close>.
\<close>

datatype go_panic = SliceBoundsOutOfRange | IndexOutOfRange | NilDereference

datatype numError = ErrSyntax | ErrRange

definition isDigit :: "char \<Rightarrow> bool" where
  "isDigit c = (c \<in> set ''0123456789'')"

definition digitVal :: "char \<Rightarrow> nat" where
  "digitVal c = of_char c - 48"

definition decimalVal :: "string \<Rightarrow> nat" where
  "decimalVal ds = foldl (\<lambda>n c. n * 10 + digitVal c) 0 ds"

text \<open>
  \<^verbatim>\<open>strconv.Atoi\<close> of the Go standard library (64-bit \<^verbatim>\<open>int\<close>): an optional sign
  \<^verbatim>\<open>+\<close> or \<^verbatim>\<open>-\<close>, then at least one decimal digit and nothing else. It returns the
  value and an error; the value is 0 with a syntax error and the nearest bound with
  a range error.
\<close>

definition Atoi :: "string \<Rightarrow> int \<times> numError option" where
  "Atoi s =
     (let signed = (s \<noteq> [] \<and> (hd s = CHR ''-'' \<or> hd s = CHR ''+''));
          body = (if signed then tl s else s)
      in if body = [] \<or> \<not> list_all isDigit body then (0, Some ErrSyntax)
         else let n = int (decimalVal body);
                  v = (if hd s = CHR ''-'' then - n else n)
              in if v < - (2 ^ 63) then (- (2 ^ 63), Some ErrRange)
                 else if 2 ^ 63 - 1 < v then (2 ^ 63 - 1, Some ErrRange)
                 else (v, None))"

section \<open>Year and race number of an episode identifier\<close>

text \<open>
  The first \<^verbatim>\<open>getYearAndRace\<close> of \<^verbatim>\<open>main.go\<close> (line 371): no check of the length,
  so \<^verbatim>\<open>input[:2]\<close> and \<^verbatim>\<open>input[2:4]\<close> panic on a short input.
\<close>

definition getYearAndRace :: "string \<Rightarrow> go_panic + (string \<times> string)" where
  "getYearAndRace input =
     (if length input < 2 then Inl SliceBoundsOutOfRange
      else let year = take 2 input;
               intYear = fst (Atoi year);
               fullYear = (if intYear < 30 then ''20'' @ year else ''19'' @ year)
           in if length input < 4 then Inl SliceBoundsOutOfRange
              else Inr (fullYear, take 2 (drop 2 input)))"

text \<open>
  The later \<^verbatim>\<open>getYearAndRace\<close> (line 811), which checks the length and the digits
  and returns an error value; \<^verbatim>\<open>errors.New\<close> is the constructor \<open>ErrorString\<close>.
\<close>

datatype go_error = ErrorString string

definition getYearAndRace_v2 :: "string \<Rightarrow> string \<times> string \<times> go_error option" where
  "getYearAndRace_v2 input =
     (if length input < 4 then ([], [], Some (ErrorString ''not long enough''))
      else if snd (Atoi (take 4 input)) \<noteq> None
        then ([], [], Some (ErrorString ''not a valid YearRaceID''))
      else if take 4 input = ''2018'' \<or> take 4 input = ''2019''
        then (take 4 input, ''0'', None)
      else let year = take 2 input;
               intYear = fst (Atoi year)
           in ((if intYear < 30 then ''20'' @ year else ''19'' @ year),
               take 2 (drop 2 input), None))"

text \<open>
  The year under which \<^verbatim>\<open>addEpisodes\<close> files an episode (lines 662 to 672):
  \<open>None\<close> when the first four bytes are not a number (the episode is kept for the
  end of the list), a panic when there are fewer than four bytes.
\<close>

definition yearBucket :: "string \<Rightarrow> go_panic + string option" where
  "yearBucket dataSourceID =
     (if length dataSourceID < 4 then Inl SliceBoundsOutOfRange
      else let yearRaceID = take 4 dataSourceID
           in if snd (Atoi yearRaceID) = None
              then (if yearRaceID \<noteq> ''2018'' \<and> yearRaceID \<noteq> ''2019''
                    then (case getYearAndRace dataSourceID of
                            Inl p \<Rightarrow> Inl p
                          | Inr (year, _) \<Rightarrow> Inr (Some year))
                    else Inr (Some yearRaceID))
              else Inr None)"

text \<open>The identifiers \<^verbatim>\<open>addEpisodes\<close> takes for a year and race code.\<close>

definition numericPrefix :: "string \<Rightarrow> bool" where
  "numericPrefix input = (4 \<le> length input \<and> snd (Atoi (take 4 input)) = None)"

section \<open>The tree of the user interface\<close>

text \<open>
  The structures of the catalogue are declared outside \<^verbatim>\<open>main.go\<close>; the records
  hold the fields \<^verbatim>\<open>main.go\<close> reads. A field name shared by several structures
  carries the structure's name.
\<close>

record episodeStruct =
  Title :: string
  Subtitle :: string
  Synopsis :: string
  DataSourceID :: string
  DriverUrls :: "string list"
  TeamUrls :: "string list"
  Items :: "string list"

record driverStruct =
  FirstName :: string
  LastName :: string
  DriverRacingnumber :: int

record teamStruct =
  team_Name :: string

record eventStruct =
  OfficialName :: string
  SessionoccurrenceUrls :: "string list"

record seasonStruct =
  season_Name :: string
  EventoccurrenceUrls :: "string list"

record sessionStruct =
  session_Name :: string
  Status :: string
  Slug :: string

record channelUrlsStruct =
  channel_Name :: string
  Self :: string
  channel_DriverUrls :: "driverStruct list"

record streamObject =
  ChannelUrls :: "channelUrlsStruct list"

record sessionStreamsStruct =
  Objects :: "streamObject list"

record command =
  command_Title :: string
  Commands :: "string list list"
  Watchphrase :: string
  CommandToWatch :: int

record nodeContext =
  EpID :: string
  CustomOptions :: command
  context_Title :: string

text \<open>
  The reference of a node is an \<^verbatim>\<open>interface{}\<close>: one of the values \<^verbatim>\<open>main.go\<close>
  stores there, or nil.
\<close>

datatype reference =
    RefNil
  | RefInt int
  | RefString string
  | RefStrings "string list"
  | RefEpisode episodeStruct
  | RefEvent eventStruct
  | RefSeason seasonStruct
  | RefStreams sessionStreamsStruct
  | RefChannel channelUrlsStruct
  | RefContext nodeContext

datatype color =
  PrimaryTextColor | ColorBlue | ColorYellow | ColorGreen | ColorRed | ColorWhite | ColorWheat

text \<open>
  A \<^verbatim>\<open>*tview.TreeNode\<close>. A child is a pointer, which may be nil: \<open>None\<close>.
  \<^verbatim>\<open>AddChild\<close> appends its argument to the children, nil or not.
\<close>

datatype treeNode =
  TreeNode (nodeText: string) (nodeReference: reference) (nodeColor: color)
    (nodeSelectable: bool) (nodeExpanded: bool) (nodeChildren: "treeNode option list")

definition NewTreeNode :: "string \<Rightarrow> treeNode" where
  "NewTreeNode t = TreeNode t RefNil PrimaryTextColor True True []"

fun SetText :: "string \<Rightarrow> treeNode \<Rightarrow> treeNode" where
  "SetText t (TreeNode _ r c s e cs) = TreeNode t r c s e cs"

fun SetReference :: "reference \<Rightarrow> treeNode \<Rightarrow> treeNode" where
  "SetReference r (TreeNode t _ c s e cs) = TreeNode t r c s e cs"

fun SetColor :: "color \<Rightarrow> treeNode \<Rightarrow> treeNode" where
  "SetColor c (TreeNode t r _ s e cs) = TreeNode t r c s e cs"

fun SetSelectable :: "bool \<Rightarrow> treeNode \<Rightarrow> treeNode" where
  "SetSelectable s (TreeNode t r c _ e cs) = TreeNode t r c s e cs"

fun SetExpanded :: "bool \<Rightarrow> treeNode \<Rightarrow> treeNode" where
  "SetExpanded e (TreeNode t r c s _ cs) = TreeNode t r c s e cs"

fun AddChild :: "treeNode option \<Rightarrow> treeNode \<Rightarrow> treeNode" where
  "AddChild child (TreeNode t r c s e cs) = TreeNode t r c s e (cs @ [child])"

text \<open>
  \<^verbatim>\<open>blinkNode\<close> (line 582) sets the text to \<^verbatim>\<open>loading...\<close>, alternates the colour
  until the flag is set, and restores the text. What it leaves behind depends on
  whether the loop body ran at all: the colour is the one passed if it did, and
  untouched if the flag was set before the loop began.
\<close>

definition blinkNode :: "bool \<Rightarrow> color \<Rightarrow> treeNode \<Rightarrow> treeNode" where
  "blinkNode blinked originalColor node =
     (let originalText = nodeText node;
          node1 = SetText ''loading...'' node;
          node2 = (if blinked then SetColor originalColor node1 else node1)
      in SetText originalText node2)"

section \<open>Sorting\<close>

text \<open>
  \<^verbatim>\<open>sort.Slice\<close> belongs to the Go standard library. \<^verbatim>\<open>addEpisodes\<close> takes it as
  the parameter \<open>srt\<close>. Its contract: the slice is permuted in place, and when the
  comparison is a strict weak order on the elements, no element is followed by a
  smaller one. Nothing is promised about the order for any other comparison.
\<close>

definition strictWeakOn :: "'a set \<Rightarrow> ('a \<Rightarrow> 'a \<Rightarrow> bool) \<Rightarrow> bool" where
  "strictWeakOn A lt =
     ((\<forall>a\<in>A. \<not> lt a a) \<and>
      (\<forall>a\<in>A. \<forall>b\<in>A. \<forall>c\<in>A. lt a b \<and> lt b c \<longrightarrow> lt a c) \<and>
      (\<forall>a\<in>A. \<forall>b\<in>A. \<forall>c\<in>A. \<not> lt a b \<and> \<not> lt b c \<longrightarrow> \<not> lt a c))"

definition sortContract :: "(('a \<Rightarrow> 'a \<Rightarrow> bool) \<Rightarrow> 'a list \<Rightarrow> 'a list) \<Rightarrow> bool" where
  "sortContract srt =
     (\<forall>lt xs. mset (srt lt xs) = mset xs \<and>
        (strictWeakOn (set xs) lt \<longrightarrow> sorted_wrt (\<lambda>a b. \<not> lt b a) (srt lt xs)))"

text \<open>
  What \<^verbatim>\<open>sort.Slice\<close> runs on a short slice (up to 6 elements in every release,
  up to 12 since Go 1.19) is \<^verbatim>\<open>insertionSort\<close>:
  \<^verbatim>\<open>for i := a + 1; i < b; i++ { for j := i; j > a && less(j, j-1); j-- { swap(j, j-1) } }\<close>.
  \<open>bubbleDown\<close> is the inner loop; it holds the sorted part in reverse, the
  neighbour of the moving element first.
\<close>

fun bubbleDown :: "('a \<Rightarrow> 'a \<Rightarrow> bool) \<Rightarrow> 'a \<Rightarrow> 'a list \<Rightarrow> 'a list" where
  "bubbleDown lt x [] = [x]"
| "bubbleDown lt x (y # rs) = (if lt x y then y # bubbleDown lt x rs else x # y # rs)"

definition insertionSort :: "('a \<Rightarrow> 'a \<Rightarrow> bool) \<Rightarrow> 'a list \<Rightarrow> 'a list" where
  "insertionSort lt xs = rev (foldl (\<lambda>rs x. bubbleDown lt x rs) [] xs)"

section \<open>The episodes of a category\<close>

text \<open>
  The comparison \<^verbatim>\<open>addEpisodes\<close> passes to \<^verbatim>\<open>sort.Slice\<close> (lines 643 to 655).
  \<^verbatim>\<open>DataSourceID[:4]\<close> panics on an identifier of fewer than four bytes.
\<close>

definition episodeLess :: "episodeStruct \<Rightarrow> episodeStruct \<Rightarrow> go_panic + bool" where
  "episodeLess ei ej =
     (if length (DataSourceID ei) < 4 \<or> length (DataSourceID ej) < 4
        then Inl SliceBoundsOutOfRange
      else let err = snd (Atoi (take 4 (DataSourceID ei)));
               err2 = snd (Atoi (take 4 (DataSourceID ej)))
           in if err \<noteq> None \<or> err2 \<noteq> None then Inr (Title ei < Title ej)
              else (case getYearAndRace (DataSourceID ei) of
                      Inl p \<Rightarrow> Inl p
                    | Inr (year1, race1) \<Rightarrow>
                        (case getYearAndRace (DataSourceID ej) of
                           Inl p \<Rightarrow> Inl p
                         | Inr (year2, race2) \<Rightarrow>
                             Inr (year1 < year2 \<or> (year1 = year2 \<and> race1 < race2)))))"

text \<open>The comparison as a predicate, for the identifiers on which it does not panic.\<close>

definition lessEpisode :: "episodeStruct \<Rightarrow> episodeStruct \<Rightarrow> bool" where
  "lessEpisode ei ej = (case episodeLess ei ej of Inl _ \<Rightarrow> False | Inr b \<Rightarrow> b)"

text \<open>The node of an episode and the node of a year (lines 659 to 661, 684 to 686).\<close>

definition episodeNode :: "episodeStruct \<Rightarrow> treeNode" where
  "episodeNode ep =
     SetColor ColorGreen (SetReference (RefEpisode ep) (SetSelectable True (NewTreeNode (Title ep))))"

definition yearNode :: "string \<Rightarrow> treeNode" where
  "yearNode year =
     SetExpanded False (SetReference (RefString year) (SetSelectable True (NewTreeNode year)))"

text \<open>
  The search for the node of a year among the children of the target (lines 676
  to 681): the last child whose reference is the year, with its index. Reading the
  reference of a nil child is a nil dereference.
\<close>

fun findFather ::
  "string \<Rightarrow> treeNode option list \<Rightarrow> nat \<Rightarrow> (nat \<times> treeNode) option
     \<Rightarrow> go_panic + (nat \<times> treeNode) option" where
  "findFather year [] i found = Inr found"
| "findFather year (None # cs) i found = Inl NilDereference"
| "findFather year (Some subNode # cs) i found =
     findFather year cs (Suc i)
       (if nodeReference subNode = RefString year then Some (i, subNode) else found)"

text \<open>
  One turn of the loop over the sorted episodes (lines 658 to 696). The state is
  the children of the target and the nodes kept for the end.
\<close>

definition attachEpisode ::
  "episodeStruct \<Rightarrow> treeNode option list \<times> treeNode list
     \<Rightarrow> go_panic + (treeNode option list \<times> treeNode list)" where
  "attachEpisode ep st =
     (let children = fst st; skippedEpisodes = snd st; node = episodeNode ep
      in case yearBucket (DataSourceID ep) of
           Inl p \<Rightarrow> Inl p
         | Inr None \<Rightarrow> Inr (children, skippedEpisodes @ [node])
         | Inr (Some year) \<Rightarrow>
             (case findFather year children 0 None of
                Inl p \<Rightarrow> Inl p
              | Inr None \<Rightarrow>
                  Inr (children @ [Some (AddChild (Some node) (yearNode year))], skippedEpisodes)
              | Inr (Some (i, fatherNode)) \<Rightarrow>
                  Inr (children[i := Some (AddChild (Some node) fatherNode)], skippedEpisodes)))"

fun attachEpisodes ::
  "episodeStruct list \<Rightarrow> treeNode option list \<times> treeNode list
     \<Rightarrow> go_panic + (treeNode option list \<times> treeNode list)" where
  "attachEpisodes [] st = Inr st"
| "attachEpisodes (ep # eps) st =
     (case attachEpisode ep st of Inl p \<Rightarrow> Inl p | Inr st' \<Rightarrow> attachEpisodes eps st')"

text \<open>
  \<^verbatim>\<open>addEpisodes\<close> (line 598) from the point where every episode is loaded: the
  sort, the loop, the nodes kept for the end, and the end of the blinking. With
  two episodes or more the sort compares every one of them, so an identifier of
  fewer than four bytes panics there; with one episode the loop panics on it.
\<close>

definition addEpisodes ::
  "((episodeStruct \<Rightarrow> episodeStruct \<Rightarrow> bool) \<Rightarrow> episodeStruct list \<Rightarrow> episodeStruct list)
     \<Rightarrow> bool \<Rightarrow> treeNode \<Rightarrow> episodeStruct list \<Rightarrow> go_panic + treeNode" where
  "addEpisodes srt blinked target episodes =
     (if 2 \<le> length episodes \<and> list_ex (\<lambda>ep. length (DataSourceID ep) < 4) episodes
        then Inl SliceBoundsOutOfRange
      else case attachEpisodes (srt lessEpisode episodes) (nodeChildren target, []) of
             Inl p \<Rightarrow> Inl p
           | Inr (children, skippedEpisodes) \<Rightarrow>
               Inr (blinkNode blinked ColorYellow
                      (foldl (\<lambda>t ep. AddChild (Some ep) t)
                         (TreeNode (nodeText target) (nodeReference target) (nodeColor target)
                            (nodeSelectable target) (nodeExpanded target) children)
                         skippedEpisodes)))"

section \<open>Names of drivers and teams\<close>

text \<open>\<^verbatim>\<open>strconv.Itoa\<close>: the decimal digits of an integer, after \<^verbatim>\<open>-\<close> when it is negative.\<close>

fun natToString :: "nat \<Rightarrow> string" where
  "natToString n =
     (if n < 10 then [char_of (48 + n)]
      else natToString (n div 10) @ [char_of (48 + n mod 10)])"

definition Itoa :: "int \<Rightarrow> string" where
  "Itoa i = (if i < 0 then ''-'' @ natToString (nat (- i)) else natToString (nat i))"

definition addNumberToName :: "int \<Rightarrow> string \<Rightarrow> string" where
  "addNumberToName number name =
     (if 10 \<le> number then ''('' @ Itoa number @ '') '' @ name
      else '' ('' @ Itoa number @ '') '' @ name)"

text \<open>
  The caches of drivers and teams are maps. A remote call (\<^verbatim>\<open>getDriver\<close>,
  \<^verbatim>\<open>getTeam\<close>, defined outside \<^verbatim>\<open>main.go\<close>) is a function of the identifier, a
  parameter of every function that makes one; the state records the identifier of
  each call in the order the calls are made.
\<close>

record resolverState =
  driverMap :: "string \<rightharpoonup> driverStruct"
  teamMap :: "string \<rightharpoonup> teamStruct"
  driverFetches :: "string list"
  teamFetches :: "string list"

text \<open>
  \<^verbatim>\<open>getDriverNames\<close> (line 409) starts one goroutine for each index of the slice
  and waits for all of them. A goroutine takes two steps on the shared state. The
  first one looks its identifier up under the read lock (lines 417 to 419) and, on
  a miss, makes the remote call (line 422). The second one stores the driver under
  the write lock when the lookup was a miss (lines 424 to 426), writes the name
  into the slot of its index (line 430) and ends (line 432). The steps of
  different goroutines interleave in any order: a schedule is the list of the
  steps in the order they are taken, and a step that its goroutine cannot take
  next is skipped.
\<close>

datatype step = Lookup nat | Store nat

datatype 'e goroutine = NotStarted | Loaded 'e bool | Finished

record 'e callState =
  shared :: resolverState
  goroutines :: "'e goroutine list"
  slice :: "string list"

definition driverStep ::
  "(string \<Rightarrow> driverStruct) \<Rightarrow> step \<Rightarrow> driverStruct callState \<Rightarrow> driverStruct callState" where
  "driverStep getDriver ev s =
     (case ev of
        Lookup j \<Rightarrow>
          (if j < length (goroutines s) \<and> goroutines s ! j = NotStarted
           then (case driverMap (shared s) (slice s ! j) of
                   Some driver \<Rightarrow> s\<lparr>goroutines := (goroutines s)[j := Loaded driver True]\<rparr>
                 | None \<Rightarrow>
                     s\<lparr>goroutines := (goroutines s)[j := Loaded (getDriver (slice s ! j)) False],
                       shared := (shared s)\<lparr>driverFetches := driverFetches (shared s) @ [slice s ! j]\<rparr>\<rparr>)
           else s)
      | Store j \<Rightarrow>
          (if j < length (goroutines s)
           then (case goroutines s ! j of
                   Loaded driver ok \<Rightarrow>
                     s\<lparr>shared := (if ok then shared s
                                  else (shared s)\<lparr>driverMap := (driverMap (shared s))(slice s ! j \<mapsto> driver)\<rparr>),
                       slice := (slice s)[j := addNumberToName (DriverRacingnumber driver)
                                                (FirstName driver @ '' '' @ LastName driver)],
                       goroutines := (goroutines s)[j := Finished]\<rparr>
                 | _ \<Rightarrow> s)
           else s))"

text \<open>The two steps of a goroutine of \<^verbatim>\<open>getTeamNames\<close> (lines 446 to 462).\<close>

definition teamStep ::
  "(string \<Rightarrow> teamStruct) \<Rightarrow> step \<Rightarrow> teamStruct callState \<Rightarrow> teamStruct callState" where
  "teamStep getTeam ev s =
     (case ev of
        Lookup j \<Rightarrow>
          (if j < length (goroutines s) \<and> goroutines s ! j = NotStarted
           then (case teamMap (shared s) (slice s ! j) of
                   Some team \<Rightarrow> s\<lparr>goroutines := (goroutines s)[j := Loaded team True]\<rparr>
                 | None \<Rightarrow>
                     s\<lparr>goroutines := (goroutines s)[j := Loaded (getTeam (slice s ! j)) False],
                       shared := (shared s)\<lparr>teamFetches := teamFetches (shared s) @ [slice s ! j]\<rparr>\<rparr>)
           else s)
      | Store j \<Rightarrow>
          (if j < length (goroutines s)
           then (case goroutines s ! j of
                   Loaded team ok \<Rightarrow>
                     s\<lparr>shared := (if ok then shared s
                                  else (shared s)\<lparr>teamMap := (teamMap (shared s))(slice s ! j \<mapsto> team)\<rparr>),
                       slice := (slice s)[j := team_Name team],
                       goroutines := (goroutines s)[j := Finished]\<rparr>
                 | _ \<Rightarrow> s)
           else s))"

text \<open>
  A call: every goroutine is started on the slice it was given, the steps of the
  schedule are taken, and \<^verbatim>\<open>wg.Wait\<close> returns once every goroutine has ended; then
  \<^verbatim>\<open>sort.Strings\<close> sorts the slice by the total order of strings, so its result is
  the sorted list whatever the algorithm. A schedule that leaves a goroutine
  unfinished is not a run in which the call returns: the result is \<open>None\<close>.
\<close>

definition startCall :: "string list \<Rightarrow> resolverState \<Rightarrow> 'e callState" where
  "startCall lines st =
     \<lparr>shared = st, goroutines = replicate (length lines) NotStarted, slice = lines\<rparr>"

definition runCall ::
  "(step \<Rightarrow> 'e callState \<Rightarrow> 'e callState) \<Rightarrow> step list \<Rightarrow> string list \<Rightarrow> resolverState
     \<Rightarrow> (string list \<times> resolverState) option" where
  "runCall stp schedule lines st =
     (let s = foldl (\<lambda>s ev. stp ev s) (startCall lines st) schedule
      in if list_all (\<lambda>g. g = Finished) (goroutines s)
         then Some (sort (slice s), shared s)
         else None)"

text \<open>\<^verbatim>\<open>getDriverNames\<close> (line 409) and \<^verbatim>\<open>getTeamNames\<close> (line 441).\<close>

definition getDriverNames ::
  "(string \<Rightarrow> driverStruct) \<Rightarrow> step list \<Rightarrow> string list \<Rightarrow> resolverState
     \<Rightarrow> (string list \<times> resolverState) option" where
  "getDriverNames getDriver schedule lines st = runCall (driverStep getDriver) schedule lines st"

definition getTeamNames ::
  "(string \<Rightarrow> teamStruct) \<Rightarrow> step list \<Rightarrow> string list \<Rightarrow> resolverState
     \<Rightarrow> (string list \<times> resolverState) option" where
  "getTeamNames getTeam schedule lines st = runCall (teamStep getTeam) schedule lines st"

text \<open>\<^verbatim>\<open>convertIDs\<close> (line 396).\<close>

definition convertIDs ::
  "(string \<Rightarrow> driverStruct) \<Rightarrow> (string \<Rightarrow> teamStruct) \<Rightarrow> step list \<Rightarrow> string list
     \<Rightarrow> resolverState \<Rightarrow> (string list \<times> resolverState) option" where
  "convertIDs getDriver getTeam schedule lines st =
     (if length lines < 1 then Some (lines, st)
      else if 12 < length (hd lines) \<and> take 12 (hd lines) = ''/api/driver/''
        then getDriverNames getDriver schedule lines st
      else if 12 < length (hd lines) \<and> take 10 (hd lines) = ''/api/team/''
        then getTeamNames getTeam schedule lines st
      else Some (lines, st))"

section \<open>Seasons, events and sessions\<close>

text \<open>
  The remote calls \<^verbatim>\<open>getEvent\<close>, \<^verbatim>\<open>getSession\<close> and \<^verbatim>\<open>getSessionStreams\<close> are
  parameters. Each goroutine of a loader writes the slot of its own index, so the
  slice a loader returns does not depend on the order in which they run; a slot
  that is not written stays nil.
\<close>

definition eventNode :: "eventStruct \<Rightarrow> treeNode option" where
  "eventNode event =
     (if 0 < length (SessionoccurrenceUrls event)
      then Some (SetReference (RefEvent event) (SetSelectable True (NewTreeNode (OfficialName event))))
      else None)"

definition getEventNodes :: "(string \<Rightarrow> eventStruct) \<Rightarrow> seasonStruct \<Rightarrow> treeNode option list" where
  "getEventNodes getEvent season =
     map (\<lambda>eventID. eventNode (getEvent eventID)) (EventoccurrenceUrls season)"

text \<open>
  The branch of the selection handler for a season (lines 178 to 188): every
  slot of the slice is passed to \<^verbatim>\<open>AddChild\<close>.
\<close>

definition expandSeason ::
  "(string \<Rightarrow> eventStruct) \<Rightarrow> bool \<Rightarrow> treeNode \<Rightarrow> seasonStruct \<Rightarrow> treeNode" where
  "expandSeason getEvent blinked node season =
     blinkNode blinked ColorWheat
       (foldl (\<lambda>n event. AddChild event n) node (getEventNodes getEvent season))"

text \<open>\<^verbatim>\<open>strings.Contains\<close>.\<close>

fun Contains :: "string \<Rightarrow> string \<Rightarrow> bool" where
  "Contains [] substr = (substr = [])"
| "Contains (c # cs) substr = (take (length substr) (c # cs) = substr \<or> Contains cs substr)"

definition perspectiveNode :: "channelUrlsStruct \<Rightarrow> treeNode" where
  "perspectiveNode streamPerspective =
     (let name0 = channel_Name streamPerspective;
          name1 = (if 0 < length (channel_DriverUrls streamPerspective)
                   then addNumberToName
                          (DriverRacingnumber (hd (channel_DriverUrls streamPerspective))) name0
                   else name0);
          name = (if name1 = ''WIF'' then ''Main Feed''
                  else if name1 = ''pit lane'' then ''Pit Lane''
                  else if name1 = ''driver'' then ''Driver Tracker''
                  else if name1 = ''data'' then ''Data Channel''
                  else name1)
      in SetColor ColorGreen
           (SetReference (RefChannel streamPerspective) (SetSelectable True (NewTreeNode name))))"

text \<open>
  \<^verbatim>\<open>getPerspectiveNodes\<close> (line 542); \<open>srt\<close> is \<^verbatim>\<open>sort.Slice\<close>, and the
  comparison says whether the text of the first node has no parenthesis.
\<close>

definition getPerspectiveNodes ::
  "((treeNode \<Rightarrow> treeNode \<Rightarrow> bool) \<Rightarrow> treeNode list \<Rightarrow> treeNode list)
     \<Rightarrow> channelUrlsStruct list \<Rightarrow> treeNode list" where
  "getPerspectiveNodes srt perspectives =
     srt (\<lambda>ci cj. \<not> Contains (nodeText ci) ''('') (map perspectiveNode perspectives)"

text \<open>
  The body of one goroutine of \<^verbatim>\<open>getSessionNodes\<close> (lines 515 to 533).
  \<^verbatim>\<open>streams.Objects[0]\<close> panics when the session has no stream object.
\<close>

definition sessionNode ::
  "(string \<Rightarrow> sessionStruct) \<Rightarrow> (string \<Rightarrow> sessionStreamsStruct)
     \<Rightarrow> ((treeNode \<Rightarrow> treeNode \<Rightarrow> bool) \<Rightarrow> treeNode list \<Rightarrow> treeNode list)
     \<Rightarrow> string \<Rightarrow> go_panic + treeNode option" where
  "sessionNode getSession getSessionStreams srt sessionID =
     (let session = getSession sessionID
      in if Status session \<noteq> ''upcoming''
         then (let streams = getSessionStreams (Slug session);
                   node0 = SetSelectable True (NewTreeNode (session_Name session));
                   node1 = (if Status session = ''live''
                            then SetColor ColorRed (SetText (session_Name session @ '' - LIVE'') node0)
                            else node0);
                   node2 = SetExpanded False (SetReference (RefStreams streams) node1)
               in if Objects streams = [] then Inl IndexOutOfRange
                  else Inr (Some (foldl (\<lambda>n stream. AddChild (Some stream) n) node2
                                    (getPerspectiveNodes srt (ChannelUrls (hd (Objects streams)))))))
         else Inr None)"

fun collect :: "('a \<Rightarrow> go_panic + 'b) \<Rightarrow> 'a list \<Rightarrow> go_panic + 'b list" where
  "collect f [] = Inr []"
| "collect f (x # xs) =
     (case f x of
        Inl p \<Rightarrow> Inl p
      | Inr y \<Rightarrow> (case collect f xs of Inl p \<Rightarrow> Inl p | Inr ys \<Rightarrow> Inr (y # ys)))"

definition getSessionNodes ::
  "(string \<Rightarrow> sessionStruct) \<Rightarrow> (string \<Rightarrow> sessionStreamsStruct)
     \<Rightarrow> ((treeNode \<Rightarrow> treeNode \<Rightarrow> bool) \<Rightarrow> treeNode list \<Rightarrow> treeNode list)
     \<Rightarrow> eventStruct \<Rightarrow> go_panic + treeNode option list" where
  "getSessionNodes getSession getSessionStreams srt event =
     collect (sessionNode getSession getSessionStreams srt) (SessionoccurrenceUrls event)"

text \<open>
  The branch of the selection handler for an event (lines 155 to 177). The first
  goroutine attaches the sessions that are not nil and have children; the second
  one, once the blinking is over, marks a node that received none.
\<close>

fun attachSessions :: "treeNode option list \<Rightarrow> bool \<times> treeNode \<Rightarrow> bool \<times> treeNode" where
  "attachSessions [] st = st"
| "attachSessions (None # sessions) st = attachSessions sessions st"
| "attachSessions (Some session # sessions) (hasSessions, node) =
     (if 0 < length (nodeChildren session)
      then attachSessions sessions (True, AddChild (Some session) node)
      else attachSessions sessions (hasSessions, node))"

definition expandEvent ::
  "(string \<Rightarrow> sessionStruct) \<Rightarrow> (string \<Rightarrow> sessionStreamsStruct)
     \<Rightarrow> ((treeNode \<Rightarrow> treeNode \<Rightarrow> bool) \<Rightarrow> treeNode list \<Rightarrow> treeNode list)
     \<Rightarrow> bool \<Rightarrow> treeNode \<Rightarrow> eventStruct \<Rightarrow> go_panic + treeNode" where
  "expandEvent getSession getSessionStreams srt blinked node event =
     (case getSessionNodes getSession getSessionStreams srt event of
        Inl p \<Rightarrow> Inl p
      | Inr sessions \<Rightarrow>
          (let (hasSessions, node1) = attachSessions sessions (False, node);
               node2 = blinkNode blinked ColorWhite node1
           in if \<not> hasSessions
              then Inr (SetSelectable False
                          (SetText (nodeText node2 @ '' - NO CONTENT AVAILABLE'')
                             (SetColor ColorRed node2)))
              else Inr node2))"

section \<open>An expansion and the goroutine that draws\<close>














section \<open>Custom commands\<close>

text \<open>
  \<^verbatim>\<open>strings.Replace(s, old, new, -1)\<close> for a non-empty \<open>old\<close>: every occurrence
  that does not overlap an earlier one, from the left. \<open>skip\<close> counts the bytes of
  a replaced occurrence that are still to be passed over.
\<close>

fun replaceFrom :: "nat \<Rightarrow> string \<Rightarrow> string \<Rightarrow> string \<Rightarrow> string" where
  "replaceFrom skip [] old new = []"
| "replaceFrom skip (c # cs) old new =
     (if 0 < skip then replaceFrom (skip - 1) cs old new
      else if take (length old) (c # cs) = old
        then new @ replaceFrom (length old - 1) cs old new
      else c # replaceFrom 0 cs old new)"

definition Replace :: "string \<Rightarrow> string \<Rightarrow> string \<Rightarrow> string" where
  "Replace s old new = replaceFrom 0 s old new"

text \<open>
  The state of one dispatch (lines 196 to 229): the flag and the path of the
  downloaded file, the calls of \<^verbatim>\<open>downloadAsset\<close> made so far (address and
  title), and the commands started so far.
\<close>

record dispatchState =
  fileLoaded :: bool
  filepath :: string
  downloads :: "(string \<times> string) list"
  started :: "string list list"

text \<open>One turn of the loop over the tokens of a command (lines 206 to 216).\<close>

definition substituteToken ::
  "(string \<Rightarrow> string \<Rightarrow> string) \<Rightarrow> string \<Rightarrow> string \<Rightarrow> string \<Rightarrow> dispatchState
     \<Rightarrow> string \<times> dispatchState" where
  "substituteToken downloadAsset url title s st =
     (if Contains s ''$file''
      then (let st1 = (if \<not> fileLoaded st
                       then st\<lparr>filepath := downloadAsset url title, fileLoaded := True,
                               downloads := downloads st @ [(url, title)]\<rparr>
                       else st)
            in (Replace (Replace s ''$file'' (filepath st1)) ''$url'' url, st1))
      else (Replace s ''$url'' url, st))"

fun substituteTokens ::
  "(string \<Rightarrow> string \<Rightarrow> string) \<Rightarrow> string \<Rightarrow> string \<Rightarrow> string list \<Rightarrow> dispatchState
     \<Rightarrow> string list \<times> dispatchState" where
  "substituteTokens downloadAsset url title [] st = ([], st)"
| "substituteTokens downloadAsset url title (s # tokens) st =
     (let (s', st1) = substituteToken downloadAsset url title s st;
          (tokens', st2) = substituteTokens downloadAsset url title tokens st1
      in (s' # tokens', st2))"

text \<open>The loop over the commands (lines 201 to 229); an empty command is passed over.\<close>

fun runCommands ::
  "(string \<Rightarrow> string \<Rightarrow> string) \<Rightarrow> string \<Rightarrow> string \<Rightarrow> string list list \<Rightarrow> dispatchState
     \<Rightarrow> dispatchState" where
  "runCommands downloadAsset url title [] st = st"
| "runCommands downloadAsset url title (cmd # cmds) st =
     (if 0 < length cmd
      then (let (tmpCommand, st1) = substituteTokens downloadAsset url title cmd st
            in runCommands downloadAsset url title cmds (st1\<lparr>started := started st1 @ [tmpCommand]\<rparr>))
      else runCommands downloadAsset url title cmds st)"

text \<open>
  The branch of the selection handler for a custom command (lines 189 to 232):
  the address is resolved once, the flag starts unset. The watch of the output of
  a command and the colour of the node are left out.
\<close>

definition dispatch ::
  "(string \<Rightarrow> string) \<Rightarrow> (string \<Rightarrow> string \<Rightarrow> string) \<Rightarrow> nodeContext \<Rightarrow> dispatchState" where
  "dispatch getPlayableURL downloadAsset ctx =
     runCommands downloadAsset (getPlayableURL (EpID ctx)) (context_Title ctx)
       (Commands (CustomOptions ctx))
       \<lparr>fileLoaded = False, filepath = [], downloads = [], started = []\<rparr>"

text \<open>Whether a token of a command of the dispatch contains \<^verbatim>\<open>$file\<close>.\<close>

definition mentionsFile :: "string list list \<Rightarrow> bool" where
  "mentionsFile cmds = list_ex (list_ex (\<lambda>s. Contains s ''$file'')) cmds"

section \<open>Notions used in the statements\<close>

text \<open>
  The episodes \<^verbatim>\<open>addEpisodes\<close> files under a year, and those it keeps for the
  end, in the order of the list.
\<close>

definition bucket :: "string \<Rightarrow> episodeStruct list \<Rightarrow> episodeStruct list" where
  "bucket year eps = filter (\<lambda>ep. yearBucket (DataSourceID ep) = Inr (Some year)) eps"

definition residual :: "episodeStruct list \<Rightarrow> episodeStruct list" where
  "residual eps = filter (\<lambda>ep. yearBucket (DataSourceID ep) = Inr None) eps"

text \<open>The node of a year after the given episodes were added to it, one by one.\<close>

definition bucketNode :: "string \<Rightarrow> episodeStruct list \<Rightarrow> treeNode" where
  "bucketNode year eps = foldl (\<lambda>n ep. AddChild (Some (episodeNode ep)) n) (yearNode year) eps"

text \<open>
  Reading a tree: the episodes of the children of a node that are nodes of
  episodes, and the children of a node that are nodes of years (their reference is
  a string).
\<close>

definition childEpisodes :: "treeNode \<Rightarrow> episodeStruct list" where
  "childEpisodes n =
     concat (map (\<lambda>c. case c of
                         None \<Rightarrow> []
                       | Some m \<Rightarrow> (case nodeReference m of RefEpisode ep \<Rightarrow> [ep] | _ \<Rightarrow> []))
               (nodeChildren n))"

definition yearBuckets :: "treeNode \<Rightarrow> treeNode list" where
  "yearBuckets n =
     concat (map (\<lambda>c. case c of
                         None \<Rightarrow> []
                       | Some m \<Rightarrow> (case nodeReference m of RefString _ \<Rightarrow> [m] | _ \<Rightarrow> []))
               (nodeChildren n))"

text \<open>
  The first episode is not after the second one in the lexicographic order of the
  pairs of year and race number, the pair of an identifier being the one the
  guarded \<^verbatim>\<open>getYearAndRace\<close> (line 811) returns: for an identifier that begins
  with \<^verbatim>\<open>2018\<close> or \<^verbatim>\<open>2019\<close> it is that year and the race number \<^verbatim>\<open>0\<close>.
\<close>

definition inYearRaceOrder :: "episodeStruct \<Rightarrow> episodeStruct \<Rightarrow> bool" where
  "inYearRaceOrder a b =
     (case getYearAndRace_v2 (DataSourceID a) of
        (year1, race1, err1) \<Rightarrow>
          (case getYearAndRace_v2 (DataSourceID b) of
             (year2, race2, err2) \<Rightarrow>
               err1 = None \<and> err2 = None \<and> (year1 < year2 \<or> (year1 = year2 \<and> race1 \<le> race2))))"

text \<open>
  The identifiers of the special case of line 668, and the lists of episodes whose
  identifiers are all of that kind, or of which none is.
\<close>

definition tokenIdentifier :: "string \<Rightarrow> bool" where
  "tokenIdentifier d = (take 4 d = ''2018'' \<or> take 4 d = ''2019'')"

definition sameScheme :: "episodeStruct list \<Rightarrow> bool" where
  "sameScheme eps =
     (list_all (\<lambda>ep. tokenIdentifier (DataSourceID ep)) eps
      \<or> list_all (\<lambda>ep. \<not> tokenIdentifier (DataSourceID ep)) eps)"

text \<open>The pair the comparison of \<^verbatim>\<open>addEpisodes\<close> uses (lines 651 and 652).\<close>

definition yearRaceKey :: "episodeStruct \<Rightarrow> string \<times> string" where
  "yearRaceKey ep = (case getYearAndRace (DataSourceID ep) of Inl _ \<Rightarrow> ([], []) | Inr k \<Rightarrow> k)"

text \<open>
  The invariant of the loop of \<^verbatim>\<open>addEpisodes\<close> that starts from a target without
  children: after the episodes \<open>seen\<close>, the children are the nodes of distinct
  years, each with the episodes of its year, and the nodes kept are those of the
  other episodes.
\<close>

definition goodState :: "episodeStruct list \<Rightarrow> treeNode option list \<times> treeNode list \<Rightarrow> bool" where
  "goodState seen st =
     (snd st = map episodeNode (residual seen) \<and>
      (\<exists>years. distinct years \<and> set years = {y. bucket y seen \<noteq> []} \<and>
         fst st = map (\<lambda>y. Some (bucketNode y (bucket y seen))) years))"

text \<open>
  The driver a state stands for: the cached one, else the one the remote call
  returns; the name shown for it; the remote calls made between two states.
\<close>

definition cachedDriver :: "(string \<Rightarrow> driverStruct) \<Rightarrow> resolverState \<Rightarrow> string \<Rightarrow> driverStruct" where
  "cachedDriver getDriver st line =
     (case driverMap st line of Some driver \<Rightarrow> driver | None \<Rightarrow> getDriver line)"

definition driverDisplay :: "(string \<Rightarrow> driverStruct) \<Rightarrow> resolverState \<Rightarrow> string \<Rightarrow> string" where
  "driverDisplay getDriver st line =
     (let driver = cachedDriver getDriver st line
      in addNumberToName (DriverRacingnumber driver) (FirstName driver @ '' '' @ LastName driver))"

definition fetchedSince :: "resolverState \<Rightarrow> resolverState \<Rightarrow> string list" where
  "fetchedSince st st' = drop (length (driverFetches st)) (driverFetches st')"

text \<open>
  The invariants of a call of \<^verbatim>\<open>getDriverNames\<close> on \<open>lines\<close> from the state
  \<open>st0\<close>. A goroutine that has not ended left its slot as it was, and the driver
  it holds is the one the first state stands for; the slot of one that has ended
  holds the name, and its identifier is in the cache. The cache only grows and
  stands for the same drivers. The remote calls made so far are for identifiers of
  the list that the first state did not hold, at most one for an identifier the
  list holds once.
\<close>

definition slotInv ::
  "(string \<Rightarrow> driverStruct) \<Rightarrow> string list \<Rightarrow> resolverState \<Rightarrow> driverStruct callState \<Rightarrow> nat \<Rightarrow> bool" where
  "slotInv g lines st0 s j =
     (case goroutines s ! j of
        NotStarted \<Rightarrow> slice s ! j = lines ! j
      | Loaded d ok \<Rightarrow>
          slice s ! j = lines ! j \<and> d = cachedDriver g st0 (lines ! j) \<and>
          (ok \<longrightarrow> lines ! j \<in> dom (driverMap (shared s)))
      | Finished \<Rightarrow>
          slice s ! j = driverDisplay g st0 (lines ! j) \<and> lines ! j \<in> dom (driverMap (shared s)))"

definition callInv ::
  "(string \<Rightarrow> driverStruct) \<Rightarrow> string list \<Rightarrow> resolverState \<Rightarrow> driverStruct callState \<Rightarrow> bool" where
  "callInv g lines st0 s =
     (length (goroutines s) = length lines \<and> length (slice s) = length lines \<and>
      cachedDriver g (shared s) = cachedDriver g st0 \<and>
      dom (driverMap st0) \<subseteq> dom (driverMap (shared s)) \<and>
      (\<forall>j<length lines. slotInv g lines st0 s j))"

definition logInv :: "string list \<Rightarrow> resolverState \<Rightarrow> driverStruct callState \<Rightarrow> bool" where
  "logInv lines st0 s =
     (\<exists>fs. driverFetches (shared s) = driverFetches st0 @ fs \<and>
        set fs \<inter> dom (driverMap st0) = {} \<and> set fs \<subseteq> set lines \<and>
        (\<forall>j<length lines. count_list lines (lines ! j) \<le> 1 \<longrightarrow>
           count_list fs (lines ! j) \<le> (if goroutines s ! j = NotStarted then 0 else 1)))"

text \<open>
  Steps that let every goroutine of a call on \<open>n\<close> identifiers go on to its end,
  wherever it is.
\<close>

definition finishAll :: "nat \<Rightarrow> step list" where
  "finishAll n = map Lookup [0..<n] @ map Store [0..<n]"




text \<open>The flag of a dispatch is set exactly when one download was made.\<close>

definition downloadsOk :: "dispatchState \<Rightarrow> bool" where
  "downloadsOk st = (length (downloads st) = (if fileLoaded st then 1 else 0))"

text \<open>
  The sessions the branch for an event attaches (line 162): those that are not
  nil and have children.
\<close>

definition isValidSession :: "treeNode option \<Rightarrow> bool" where
  "isValidSession s = (case s of None \<Rightarrow> False | Some n \<Rightarrow> 0 < length (nodeChildren n))"

definition validSessions :: "treeNode option list \<Rightarrow> treeNode option list" where
  "validSessions sessions = filter isValidSession sessions"

text \<open>Values for the examples: an episode with a title and an identifier, an empty cache.\<close>

definition episodeWith :: "string \<Rightarrow> string \<Rightarrow> episodeStruct" where
  "episodeWith t d =
     \<lparr>Title = t, Subtitle = [], Synopsis = [], DataSourceID = d, DriverUrls = [],
      TeamUrls = [], Items = []\<rparr>"

definition emptyCaches :: resolverState where
  "emptyCaches = \<lparr>driverMap = Map.empty, teamMap = Map.empty, driverFetches = [], teamFetches = []\<rparr>"

definition driverNumbered :: "int \<Rightarrow> string \<Rightarrow> driverStruct" where
  "driverNumbered n line = \<lparr>FirstName = ''Driver'', LastName = line, DriverRacingnumber = n\<rparr>"




section \<open>Facts about the model\<close>

subsection \<open>Facts about Atoi\<close>

lemma digitVal_le_9: "isDigit c \<Longrightarrow> digitVal c \<le> 9"
  by (auto simp: isDigit_def digitVal_def)

lemma isDigit_not_sign: "isDigit c \<Longrightarrow> c \<noteq> CHR ''-'' \<and> c \<noteq> CHR ''+''"
  by (auto simp: isDigit_def)

lemma decimalVal_snoc: "decimalVal (ds @ [c]) = decimalVal ds * 10 + digitVal c"
  by (simp add: decimalVal_def)

lemma decimalVal_bound: "list_all isDigit ds \<Longrightarrow> decimalVal ds < 10 ^ length ds"
proof (induction ds rule: rev_induct)
  case Nil
  then show ?case by (simp add: decimalVal_def)
next
  case (snoc c ds)
  then have "decimalVal ds < 10 ^ length ds" and "digitVal c \<le> 9"
    by (simp_all add: digitVal_le_9)
  then show ?case by (simp add: decimalVal_snoc)
qed

lemma Atoi_digits:
  assumes "ds \<noteq> []" and "list_all isDigit ds" and "length ds \<le> 18"
  shows "Atoi ds = (int (decimalVal ds), None)"
proof -
  from assms(1,2) have hd: "hd ds \<noteq> CHR ''-''" "hd ds \<noteq> CHR ''+''"
    by (cases ds; simp add: isDigit_not_sign)+
  have "decimalVal ds < 10 ^ length ds"
    using assms(2) by (rule decimalVal_bound)
  also have "(10::nat) ^ length ds \<le> 10 ^ 18"
    using assms(3) by (intro power_increasing) simp_all
  finally have "int (decimalVal ds) < int (10 ^ 18)" by (simp only: of_nat_less_iff)
  then have "\<not> int (decimalVal ds) < - (2 ^ 63)" "\<not> 2 ^ 63 - 1 < int (decimalVal ds)"
    by simp_all
  with hd assms(1,2) show ?thesis
    by (simp add: Atoi_def Let_def)
qed

text \<open>
  Whenever the first four bytes are a number for \<^verbatim>\<open>Atoi\<close>, the first two are one
  as well: a sign and a digit, or two digits.
\<close>

lemma Atoi_take4_digits:
  assumes "4 \<le> length input" and "list_all isDigit (take 4 input)"
  shows "snd (Atoi (take 4 input)) = None"
proof -
  have "take 4 input \<noteq> []" using assms(1) by auto
  then show ?thesis using assms(2) by (simp add: Atoi_digits)
qed

lemma numericPrefix_digits:
  "4 \<le> length input \<Longrightarrow> list_all isDigit (take 4 input) \<Longrightarrow> numericPrefix input"
  by (simp add: numericPrefix_def Atoi_take4_digits)

subsection \<open>The tree\<close>

lemma nodeChildren_SetText [simp]: "nodeChildren (SetText t n) = nodeChildren n"
  by (cases n) simp

lemma nodeChildren_SetColor [simp]: "nodeChildren (SetColor c n) = nodeChildren n"
  by (cases n) simp

lemma nodeChildren_SetSelectable [simp]: "nodeChildren (SetSelectable b n) = nodeChildren n"
  by (cases n) simp

lemma nodeChildren_AddChild [simp]: "nodeChildren (AddChild c n) = nodeChildren n @ [c]"
  by (cases n) simp

lemma nodeText_AddChild [simp]: "nodeText (AddChild c n) = nodeText n"
  by (cases n) simp

lemma nodeText_SetText [simp]: "nodeText (SetText t n) = t"
  by (cases n) simp

lemma nodeText_SetColor [simp]: "nodeText (SetColor c n) = nodeText n"
  by (cases n) simp

lemma nodeText_SetSelectable [simp]: "nodeText (SetSelectable b n) = nodeText n"
  by (cases n) simp

lemma nodeColor_SetColor [simp]: "nodeColor (SetColor c n) = c"
  by (cases n) simp

lemma nodeColor_SetText [simp]: "nodeColor (SetText t n) = nodeColor n"
  by (cases n) simp

lemma nodeColor_SetSelectable [simp]: "nodeColor (SetSelectable b n) = nodeColor n"
  by (cases n) simp

lemma nodeSelectable_SetSelectable [simp]: "nodeSelectable (SetSelectable b n) = b"
  by (cases n) simp

lemma nodeSelectable_SetText [simp]: "nodeSelectable (SetText t n) = nodeSelectable n"
  by (cases n) simp

lemma nodeSelectable_SetColor [simp]: "nodeSelectable (SetColor c n) = nodeSelectable n"
  by (cases n) simp

lemma nodeSelectable_AddChild [simp]: "nodeSelectable (AddChild c n) = nodeSelectable n"
  by (cases n) simp

lemma nodeChildren_blinkNode [simp]: "nodeChildren (blinkNode b c n) = nodeChildren n"
  by (simp add: blinkNode_def Let_def)

lemma nodeText_blinkNode [simp]: "nodeText (blinkNode b c n) = nodeText n"
  by (simp add: blinkNode_def Let_def)

lemma nodeSelectable_blinkNode [simp]: "nodeSelectable (blinkNode b c n) = nodeSelectable n"
  by (simp add: blinkNode_def Let_def)

lemma nodeChildren_foldl_AddChild:
  "nodeChildren (foldl (\<lambda>n c. AddChild (g c) n) node cs) = nodeChildren node @ map g cs"
  by (induction cs arbitrary: node) simp_all

lemma nodeText_foldl_AddChild:
  "nodeText (foldl (\<lambda>n c. AddChild (g c) n) node cs) = nodeText node"
  by (induction cs arbitrary: node) simp_all

lemma nodeSelectable_foldl_AddChild:
  "nodeSelectable (foldl (\<lambda>n c. AddChild (g c) n) node cs) = nodeSelectable node"
  by (induction cs arbitrary: node) simp_all

lemma nodeChildren_expandSeason:
  "nodeChildren (expandSeason getEvent blinked node season) =
     nodeChildren node @ getEventNodes getEvent season"
  using nodeChildren_foldl_AddChild [of "\<lambda>c. c" node "getEventNodes getEvent season"]
  by (simp add: expandSeason_def)

lemma nodeReference_AddChild [simp]: "nodeReference (AddChild c n) = nodeReference n"
  by (cases n) simp

lemma nodeReference_foldl_AddChild:
  "nodeReference (foldl (\<lambda>n c. AddChild (g c) n) node cs) = nodeReference node"
  by (induction cs arbitrary: node) simp_all

subsection \<open>Insertion sort meets the contract of the sort\<close>

lemma set_bubbleDown: "set (bubbleDown lt x rs) = insert x (set rs)"
  by (induction rs) auto

lemma mset_bubbleDown: "mset (bubbleDown lt x rs) = add_mset x (mset rs)"
  by (induction rs) auto

lemma mset_insertionSort_aux:
  "mset (foldl (\<lambda>rs x. bubbleDown lt x rs) acc xs) = mset acc + mset xs"
  by (induction xs arbitrary: acc) (simp_all add: mset_bubbleDown)

lemma strictWeakOn_subset: "strictWeakOn A lt \<Longrightarrow> B \<subseteq> A \<Longrightarrow> strictWeakOn B lt"
  unfolding strictWeakOn_def by (meson subsetD)

lemma strictWeakOn_asym:
  "strictWeakOn A lt \<Longrightarrow> a \<in> A \<Longrightarrow> b \<in> A \<Longrightarrow> lt a b \<Longrightarrow> \<not> lt b a"
  unfolding strictWeakOn_def by blast

lemma strictWeakOn_negtrans:
  "strictWeakOn A lt \<Longrightarrow> a \<in> A \<Longrightarrow> b \<in> A \<Longrightarrow> c \<in> A \<Longrightarrow> \<not> lt a b \<Longrightarrow> \<not> lt b c \<Longrightarrow> \<not> lt a c"
  unfolding strictWeakOn_def by blast

lemma sorted_bubbleDown:
  assumes "strictWeakOn A lt" and "x \<in> A" and "set rs \<subseteq> A"
    and "sorted_wrt (\<lambda>a b. \<not> lt a b) rs"
  shows "sorted_wrt (\<lambda>a b. \<not> lt a b) (bubbleDown lt x rs)"
  using assms(3,4)
proof (induction rs)
  case Nil
  then show ?case by simp
next
  case (Cons y rs)
  show ?case
  proof (cases "lt x y")
    case True
    then have "\<not> lt y x"
      using strictWeakOn_asym [OF assms(1)] assms(2) Cons.prems(1) by simp
    with True Cons show ?thesis
      by (auto simp: set_bubbleDown)
  next
    case False
    have "\<not> lt x z" if "z \<in> set rs" for z
      using strictWeakOn_negtrans [OF assms(1) assms(2), of y z] False Cons.prems that
      by auto
    with False Cons.prems show ?thesis by auto
  qed
qed

lemma sorted_insertionSort_aux:
  assumes "strictWeakOn A lt"
  shows "set acc \<subseteq> A \<Longrightarrow> set xs \<subseteq> A \<Longrightarrow> sorted_wrt (\<lambda>a b. \<not> lt a b) acc
    \<Longrightarrow> sorted_wrt (\<lambda>a b. \<not> lt a b) (foldl (\<lambda>rs x. bubbleDown lt x rs) acc xs)"
proof (induction xs arbitrary: acc)
  case Nil
  then show ?case by simp
next
  case (Cons x xs)
  have "sorted_wrt (\<lambda>a b. \<not> lt a b) (bubbleDown lt x acc)"
    using sorted_bubbleDown [OF assms, of x acc] Cons.prems by simp
  moreover have "set (bubbleDown lt x acc) \<subseteq> A"
    using Cons.prems by (simp add: set_bubbleDown)
  ultimately show ?case using Cons.IH [of "bubbleDown lt x acc"] Cons.prems by simp
qed

lemma insertionSort_contract: "sortContract insertionSort"
  unfolding sortContract_def
proof (intro allI conjI impI)
  fix lt :: "'a \<Rightarrow> 'a \<Rightarrow> bool" and xs
  show "mset (insertionSort lt xs) = mset xs"
    by (simp add: insertionSort_def mset_insertionSort_aux)
  assume "strictWeakOn (set xs) lt"
  then have "sorted_wrt (\<lambda>a b. \<not> lt a b) (foldl (\<lambda>rs x. bubbleDown lt x rs) [] xs)"
    by (rule sorted_insertionSort_aux) simp_all
  then show "sorted_wrt (\<lambda>a b. \<not> lt b a) (insertionSort lt xs)"
    by (simp add: insertionSort_def sorted_wrt_rev)
qed

subsection \<open>The comparison of episodes\<close>

lemma lessEpisode_numeric:
  assumes "numericPrefix (DataSourceID a)" and "numericPrefix (DataSourceID b)"
  shows "\<exists>y1 r1 y2 r2. getYearAndRace (DataSourceID a) = Inr (y1, r1)
           \<and> getYearAndRace (DataSourceID b) = Inr (y2, r2)
           \<and> lessEpisode a b = (y1 < y2 \<or> (y1 = y2 \<and> r1 < r2))"
  using assms
  by (simp add: numericPrefix_def lessEpisode_def episodeLess_def getYearAndRace_def Let_def)

lemma lessEpisode_not_numeric:
  assumes "4 \<le> length (DataSourceID a)" and "4 \<le> length (DataSourceID b)"
    and "\<not> numericPrefix (DataSourceID a) \<or> \<not> numericPrefix (DataSourceID b)"
  shows "lessEpisode a b = (Title a < Title b)"
  using assms
  by (auto simp: numericPrefix_def lessEpisode_def episodeLess_def Let_def)

lemma lessEpisode_key:
  assumes "numericPrefix (DataSourceID a)" and "numericPrefix (DataSourceID b)"
  shows "lessEpisode a b =
     (fst (yearRaceKey a) < fst (yearRaceKey b)
      \<or> (fst (yearRaceKey a) = fst (yearRaceKey b) \<and> snd (yearRaceKey a) < snd (yearRaceKey b)))"
  using lessEpisode_numeric [OF assms] by (auto simp: yearRaceKey_def)

lemma strictWeakOn_lex:
  fixes k :: "'a \<Rightarrow> 'b::linorder \<times> 'c::linorder"
  assumes "\<And>a b. a \<in> A \<Longrightarrow> b \<in> A \<Longrightarrow>
     lt a b = (fst (k a) < fst (k b) \<or> (fst (k a) = fst (k b) \<and> snd (k a) < snd (k b)))"
  shows "strictWeakOn A lt"
  unfolding strictWeakOn_def
proof (intro conjI ballI impI)
  fix a assume "a \<in> A" then show "\<not> lt a a" using assms by simp
next
  fix a b c assume "a \<in> A" "b \<in> A" "c \<in> A" "lt a b \<and> lt b c"
  then show "lt a c" using assms [of a b] assms [of b c] assms [of a c] by auto
next
  fix a b c assume "a \<in> A" "b \<in> A" "c \<in> A" "\<not> lt a b \<and> \<not> lt b c"
  then show "\<not> lt a c" using assms [of a b] assms [of b c] assms [of a c] by auto
qed

lemma strictWeakOn_key:
  fixes k :: "'a \<Rightarrow> 'b::linorder"
  assumes "\<And>a b. a \<in> A \<Longrightarrow> b \<in> A \<Longrightarrow> lt a b = (k a < k b)"
  shows "strictWeakOn A lt"
  unfolding strictWeakOn_def
proof (intro conjI ballI impI)
  fix a assume "a \<in> A" then show "\<not> lt a a" using assms by simp
next
  fix a b c assume "a \<in> A" "b \<in> A" "c \<in> A" "lt a b \<and> lt b c"
  then show "lt a c" using assms [of a b] assms [of b c] assms [of a c] by auto
next
  fix a b c assume "a \<in> A" "b \<in> A" "c \<in> A" "\<not> lt a b \<and> \<not> lt b c"
  then show "\<not> lt a c" using assms [of a b] assms [of b c] assms [of a c] by auto
qed

lemma strictWeakOn_all_numeric:
  "list_all (\<lambda>ep. numericPrefix (DataSourceID ep)) eps \<Longrightarrow> strictWeakOn (set eps) lessEpisode"
  by (rule strictWeakOn_lex [where k = yearRaceKey]) (simp add: lessEpisode_key list_all_iff)

lemma strictWeakOn_none_numeric:
  "list_all (\<lambda>ep. 4 \<le> length (DataSourceID ep) \<and> \<not> numericPrefix (DataSourceID ep)) eps
     \<Longrightarrow> strictWeakOn (set eps) lessEpisode"
  by (rule strictWeakOn_key [where k = Title]) (simp add: lessEpisode_not_numeric list_all_iff)

lemma yearBucket_long:
  "4 \<le> length d \<Longrightarrow> yearBucket d = Inr None \<or> (\<exists>y. yearBucket d = Inr (Some y))"
  by (auto simp: yearBucket_def getYearAndRace_def Let_def)

lemma yearBucket_Some_numeric: "yearBucket d = Inr (Some y) \<Longrightarrow> numericPrefix d"
  by (auto simp: yearBucket_def numericPrefix_def Let_def split: if_splits)

lemma yearBucket_None_not_numeric:
  "yearBucket d = Inr None \<Longrightarrow> 4 \<le> length d \<and> \<not> numericPrefix d"
  by (auto simp: yearBucket_def numericPrefix_def getYearAndRace_def Let_def split: if_splits)

lemma getYearAndRace_v2_plain:
  assumes "numericPrefix d" and "\<not> tokenIdentifier d"
  shows "\<exists>y r. getYearAndRace d = Inr (y, r) \<and> getYearAndRace_v2 d = (y, r, None)"
  using assms
  by (simp add: numericPrefix_def tokenIdentifier_def getYearAndRace_def getYearAndRace_v2_def Let_def)

lemma getYearAndRace_v2_token:
  assumes "yearBucket d = Inr (Some y)" and "tokenIdentifier d"
  shows "getYearAndRace_v2 d = (y, ''0'', None)"
  using assms
  by (auto simp: yearBucket_def tokenIdentifier_def getYearAndRace_v2_def Let_def split: if_splits)

lemma sorted_bucket:
  assumes "sorted_wrt (\<lambda>a b. \<not> lessEpisode b a) s" and "sameScheme (bucket y s)"
  shows "sorted_wrt inYearRaceOrder (bucket y s)"
proof -
  have srt: "sorted_wrt (\<lambda>a b. \<not> lessEpisode b a) (bucket y s)"
    unfolding bucket_def using assms(1) by (rule sorted_wrt_filter)
  from assms(2) consider
    (token) "list_all (\<lambda>ep. tokenIdentifier (DataSourceID ep)) (bucket y s)"
    | (plain) "list_all (\<lambda>ep. \<not> tokenIdentifier (DataSourceID ep)) (bucket y s)"
    by (auto simp: sameScheme_def)
  then show ?thesis
  proof cases
    case token
    from srt show ?thesis
    proof (rule sorted_wrt_mono_rel [rotated])
      fix a b assume "a \<in> set (bucket y s)" "b \<in> set (bucket y s)"
      then have "yearBucket (DataSourceID a) = Inr (Some y)" "tokenIdentifier (DataSourceID a)"
        "yearBucket (DataSourceID b) = Inr (Some y)" "tokenIdentifier (DataSourceID b)"
        using token by (auto simp: bucket_def list_all_iff)
      then have "getYearAndRace_v2 (DataSourceID a) = (y, ''0'', None)"
        "getYearAndRace_v2 (DataSourceID b) = (y, ''0'', None)"
        by (simp_all add: getYearAndRace_v2_token)
      then show "inYearRaceOrder a b" by (simp add: inYearRaceOrder_def)
    qed
  next
    case plain
    from srt show ?thesis
    proof (rule sorted_wrt_mono_rel [rotated])
      fix a b assume ab: "a \<in> set (bucket y s)" "b \<in> set (bucket y s)" and nl: "\<not> lessEpisode b a"
      then have na: "numericPrefix (DataSourceID a)" and nb: "numericPrefix (DataSourceID b)"
        by (auto simp: bucket_def dest: yearBucket_Some_numeric)
      from ab plain have pa: "\<not> tokenIdentifier (DataSourceID a)"
        and pb: "\<not> tokenIdentifier (DataSourceID b)"
        by (auto simp: list_all_iff)
      from getYearAndRace_v2_plain [OF na pa] obtain y1 r1 where
        a: "getYearAndRace (DataSourceID a) = Inr (y1, r1)"
           "getYearAndRace_v2 (DataSourceID a) = (y1, r1, None)"
        by blast
      from getYearAndRace_v2_plain [OF nb pb] obtain y2 r2 where
        b: "getYearAndRace (DataSourceID b) = Inr (y2, r2)"
           "getYearAndRace_v2 (DataSourceID b) = (y2, r2, None)"
        by blast
      from lessEpisode_numeric [OF nb na] a(1) b(1) nl
      have "\<not> (y2 < y1 \<or> (y2 = y1 \<and> r2 < r1))" by simp
      then show "inYearRaceOrder a b"
        unfolding inYearRaceOrder_def a(2) b(2) by auto
    qed
  qed
qed

lemma sorted_residual:
  assumes "sorted_wrt (\<lambda>a b. \<not> lessEpisode b a) s"
  shows "sorted_wrt (\<lambda>a b. Title a \<le> Title b) (residual s)"
proof -
  have "sorted_wrt (\<lambda>a b. \<not> lessEpisode b a) (residual s)"
    unfolding residual_def using assms by (rule sorted_wrt_filter)
  then show ?thesis
  proof (rule sorted_wrt_mono_rel [rotated])
    fix a b assume "a \<in> set (residual s)" "b \<in> set (residual s)" "\<not> lessEpisode b a"
    then have "4 \<le> length (DataSourceID a)" "\<not> numericPrefix (DataSourceID a)"
      "4 \<le> length (DataSourceID b)" "\<not> lessEpisode b a"
      by (auto simp: residual_def dest: yearBucket_None_not_numeric)
    with lessEpisode_not_numeric [of b a] show "Title a \<le> Title b"
      by auto
  qed
qed

subsection \<open>The loop that files the episodes\<close>

lemma nodeReference_yearNode [simp]: "nodeReference (yearNode y) = RefString y"
  by (simp add: yearNode_def NewTreeNode_def)

lemma nodeChildren_yearNode [simp]: "nodeChildren (yearNode y) = []"
  by (simp add: yearNode_def NewTreeNode_def)

lemma nodeReference_episodeNode [simp]: "nodeReference (episodeNode ep) = RefEpisode ep"
  by (simp add: episodeNode_def NewTreeNode_def)

lemma nodeReference_bucketNode [simp]: "nodeReference (bucketNode y eps) = RefString y"
  by (simp add: bucketNode_def nodeReference_foldl_AddChild)

lemma nodeChildren_bucketNode [simp]:
  "nodeChildren (bucketNode y eps) = map (\<lambda>ep. Some (episodeNode ep)) eps"
  by (simp add: bucketNode_def nodeChildren_foldl_AddChild)

lemma bucketNode_snoc:
  "bucketNode y (eps @ [ep]) = AddChild (Some (episodeNode ep)) (bucketNode y eps)"
  by (simp add: bucketNode_def)

lemma childEpisodes_bucketNode [simp]: "childEpisodes (bucketNode y eps) = eps"
  by (induction eps rule: rev_induct) (simp_all add: childEpisodes_def)

lemma findFather_buckets:
  assumes "\<And>y. nodeReference (N y) = RefString y"
  shows "distinct years \<Longrightarrow>
     \<exists>r. findFather year (map (\<lambda>y. Some (N y)) years) i found = Inr r \<and>
       (if year \<in> set years
        then \<exists>k. k < length years \<and> years ! k = year \<and> r = Some (i + k, N year)
        else r = found)"
proof (induction years arbitrary: i found)
  case Nil
  then show ?case by simp
next
  case (Cons y years)
  show ?case
  proof (cases "y = year")
    case True
    then have nin: "year \<notin> set years" using Cons.prems by auto
    from Cons.IH [of "Suc i" "Some (i, N year)"] Cons.prems nin
    have "findFather year (map (\<lambda>y. Some (N y)) years) (Suc i) (Some (i, N year))
            = Inr (Some (i, N year))"
      by auto
    then have "findFather year (map (\<lambda>y. Some (N y)) (y # years)) i found
            = Inr (Some (i + 0, N year))"
      using True assms by simp
    moreover have "\<exists>k. k < length (y # years) \<and> (y # years) ! k = year
        \<and> Some (i + 0, N year) = Some (i + k, N year)"
      using True by (intro exI [of _ 0]) simp
    ultimately show ?thesis using True by (intro exI [of _ "Some (i + 0, N year)"]) simp
  next
    case False
    from Cons.prems have d: "distinct years" by simp
    from Cons.IH [OF d, of "Suc i" found] obtain r where
      r: "findFather year (map (\<lambda>y. Some (N y)) years) (Suc i) found = Inr r"
        "if year \<in> set years
         then \<exists>k. k < length years \<and> years ! k = year \<and> r = Some (Suc i + k, N year)
         else r = found"
      by blast
    have step: "findFather year (map (\<lambda>y. Some (N y)) (y # years)) i found = Inr r"
      using False assms r(1) by simp
    show ?thesis
    proof (cases "year \<in> set years")
      case True
      with r(2) obtain k where k: "k < length years" "years ! k = year" "r = Some (Suc i + k, N year)"
        by auto
      then have "Suc k < length (y # years) \<and> (y # years) ! Suc k = year
                 \<and> r = Some (i + Suc k, N year)"
        by simp
      with step True show ?thesis by (intro exI [of _ r]) auto
    next
      case nin: False
      with r(2) step False show ?thesis by simp
    qed
  qed
qed

lemma map_update_distinct:
  assumes "distinct years" and "k < length years" and "years ! k = year"
  shows "(map f years)[k := v] = map (\<lambda>y. if y = year then v else f y) years"
proof (rule nth_equalityI)
  show "length ((map f years)[k := v]) = length (map (\<lambda>y. if y = year then v else f y) years)"
    by simp
next
  fix j assume "j < length ((map f years)[k := v])"
  then have j: "j < length years" by simp
  show "(map f years)[k := v] ! j = map (\<lambda>y. if y = year then v else f y) years ! j"
  proof (cases "j = k")
    case True
    with assms j show ?thesis by simp
  next
    case False
    then have "years ! j \<noteq> year"
      using assms j by (auto simp: nth_eq_iff_index_eq)
    with False j show ?thesis by simp
  qed
qed

lemma attachEpisode_good:
  assumes "goodState seen st" and "4 \<le> length (DataSourceID ep)"
  shows "\<exists>st'. attachEpisode ep st = Inr st' \<and> goodState (seen @ [ep]) st'"
proof -
  from assms(1) obtain years where
    sk: "snd st = map episodeNode (residual seen)" and d: "distinct years"
    and ys: "set years = {y. bucket y seen \<noteq> []}"
    and ch: "fst st = map (\<lambda>y. Some (bucketNode y (bucket y seen))) years"
    by (auto simp: goodState_def)
  from yearBucket_long [OF assms(2)] consider
    (none) "yearBucket (DataSourceID ep) = Inr None"
    | (some) year where "yearBucket (DataSourceID ep) = Inr (Some year)" by blast
  then show ?thesis
  proof cases
    case none
    then have att: "attachEpisode ep st = Inr (fst st, snd st @ [episodeNode ep])"
      by (simp add: attachEpisode_def Let_def)
    have same: "bucket y (seen @ [ep]) = bucket y seen" for y
      using none by (simp add: bucket_def)
    have "residual (seen @ [ep]) = residual seen @ [ep]"
      using none by (simp add: residual_def)
    then have "goodState (seen @ [ep]) (fst st, snd st @ [episodeNode ep])"
      unfolding goodState_def using sk d ys ch
      by (intro conjI exI [of _ years]) (simp_all add: same)
    with att show ?thesis by blast
  next
    case some
    have other: "bucket y (seen @ [ep]) = bucket y seen" if "y \<noteq> year" for y
      using some that by (simp add: bucket_def)
    have this_one: "bucket year (seen @ [ep]) = bucket year seen @ [ep]"
      using some by (simp add: bucket_def)
    have res: "residual (seen @ [ep]) = residual seen"
      using some by (simp add: residual_def)
    from findFather_buckets [of "\<lambda>y. bucketNode y (bucket y seen)" years year 0 None, OF _ d]
    obtain r where ff: "findFather year (fst st) 0 None = Inr r"
      and r: "if year \<in> set years
              then \<exists>k. k < length years \<and> years ! k = year
                       \<and> r = Some (0 + k, bucketNode year (bucket year seen))
              else r = None"
      unfolding ch by auto
    show ?thesis
    proof (cases "year \<in> set years")
      case True
      with r obtain k where k: "k < length years" "years ! k = year"
        and rk: "r = Some (k, bucketNode year (bucket year seen))"
        by auto
      let ?new = "Some (AddChild (Some (episodeNode ep)) (bucketNode year (bucket year seen)))"
      have att: "attachEpisode ep st = Inr ((fst st)[k := ?new], snd st)"
        using some ff rk by (simp add: attachEpisode_def Let_def)
      have "(fst st)[k := ?new]
          = map (\<lambda>y. if y = year then ?new else Some (bucketNode y (bucket y seen))) years"
        unfolding ch by (rule map_update_distinct [OF d k])
      also have "\<dots> = map (\<lambda>y. Some (bucketNode y (bucket y (seen @ [ep])))) years"
        by (rule map_cong) (auto simp: other this_one bucketNode_snoc)
      finally have ch': "(fst st)[k := ?new]
          = map (\<lambda>y. Some (bucketNode y (bucket y (seen @ [ep])))) years" .
      have ys': "set years = {y. bucket y (seen @ [ep]) \<noteq> []}"
      proof (rule set_eqI)
        fix y show "y \<in> set years \<longleftrightarrow> y \<in> {y. bucket y (seen @ [ep]) \<noteq> []}"
          using ys True other [of y] this_one by (cases "y = year") auto
      qed
      have "goodState (seen @ [ep]) ((fst st)[k := ?new], snd st)"
        unfolding goodState_def using sk d res ch' ys' by (intro conjI exI [of _ years]) simp_all
      with att show ?thesis by blast
    next
      case False
      with r have rn: "r = None" by simp
      let ?new = "Some (AddChild (Some (episodeNode ep)) (yearNode year))"
      have att: "attachEpisode ep st = Inr (fst st @ [?new], snd st)"
        using some ff rn by (simp add: attachEpisode_def Let_def)
      have empty: "bucket year seen = []" using False ys by auto
      have new: "?new = Some (bucketNode year (bucket year (seen @ [ep])))"
        using bucketNode_snoc [of year "[]" ep] by (simp add: this_one empty bucketNode_def)
      have "map (\<lambda>y. Some (bucketNode y (bucket y seen))) years
          = map (\<lambda>y. Some (bucketNode y (bucket y (seen @ [ep])))) years"
      proof (rule map_cong)
        fix y assume "y \<in> set years"
        with False have "y \<noteq> year" by auto
        then show "Some (bucketNode y (bucket y seen)) = Some (bucketNode y (bucket y (seen @ [ep])))"
          by (simp add: other)
      qed simp
      then have ch': "fst st @ [?new]
          = map (\<lambda>y. Some (bucketNode y (bucket y (seen @ [ep])))) (years @ [year])"
        using new ch by simp
      have ys': "set (years @ [year]) = {y. bucket y (seen @ [ep]) \<noteq> []}"
      proof (rule set_eqI)
        fix y show "y \<in> set (years @ [year]) \<longleftrightarrow> y \<in> {y. bucket y (seen @ [ep]) \<noteq> []}"
          using ys other [of y] this_one by (cases "y = year") auto
      qed
      have "distinct (years @ [year])" using d False by simp
      then have "goodState (seen @ [ep]) (fst st @ [?new], snd st)"
        unfolding goodState_def using sk res ch' ys'
        by (intro conjI exI [of _ "years @ [year]"]) simp_all
      with att show ?thesis by blast
    qed
  qed
qed

lemma attachEpisodes_good:
  "goodState seen st \<Longrightarrow> list_all (\<lambda>ep. 4 \<le> length (DataSourceID ep)) eps \<Longrightarrow>
     \<exists>st'. attachEpisodes eps st = Inr st' \<and> goodState (seen @ eps) st'"
proof (induction eps arbitrary: seen st)
  case Nil
  then show ?case by simp
next
  case (Cons ep eps)
  from Cons.prems have "4 \<le> length (DataSourceID ep)" by simp
  from attachEpisode_good [OF Cons.prems(1) this] obtain st1 where
    st1: "attachEpisode ep st = Inr st1" "goodState (seen @ [ep]) st1" by blast
  from Cons.IH [OF st1(2)] Cons.prems(2) obtain st' where
    "attachEpisodes eps st1 = Inr st'" "goodState ((seen @ [ep]) @ eps) st'" by auto
  with st1(1) show ?case by simp
qed

lemma goodState_empty: "goodState [] ([], [])"
  by (simp add: goodState_def bucket_def residual_def)

lemma mset_concat_insert:
  "distinct years \<Longrightarrow> y0 \<in> set years \<Longrightarrow>
     mset (concat (map (\<lambda>y. if y = y0 then e # f y else f y) years))
       = add_mset e (mset (concat (map f years)))"
proof (induction years)
  case Nil
  then show ?case by simp
next
  case (Cons y years)
  show ?case
  proof (cases "y = y0")
    case True
    then have "y0 \<notin> set years" using Cons.prems by auto
    then have "map (\<lambda>y. if y = y0 then e # f y else f y) years = map f years"
      by (intro map_cong) auto
    then show ?thesis using True by (simp del: map_eq_conv)
  next
    case False
    with Cons show ?thesis by simp
  qed
qed

lemma mset_buckets:
  assumes "distinct years"
  shows "list_all (\<lambda>ep. 4 \<le> length (DataSourceID ep)) s \<Longrightarrow>
     {y. bucket y s \<noteq> []} \<subseteq> set years \<Longrightarrow>
     mset (concat (map (\<lambda>y. bucket y s) years)) + mset (residual s) = mset s"
proof (induction s)
  case Nil
  then show ?case by (simp add: bucket_def residual_def)
next
  case (Cons e s)
  from Cons.prems(1) have long: "4 \<le> length (DataSourceID e)" by simp
  have sub: "{y. bucket y s \<noteq> []} \<subseteq> set years"
  proof
    fix y assume "y \<in> {y. bucket y s \<noteq> []}"
    then have "bucket y (e # s) \<noteq> []" by (simp add: bucket_def)
    with Cons.prems(2) show "y \<in> set years" by blast
  qed
  from Cons.IH [OF _ sub] Cons.prems(1)
  have IH: "mset (concat (map (\<lambda>y. bucket y s) years)) + mset (residual s) = mset s" by simp
  from yearBucket_long [OF long] show ?case
  proof
    assume none: "yearBucket (DataSourceID e) = Inr None"
    then have "bucket y (e # s) = bucket y s" for y by (simp add: bucket_def)
    moreover have "residual (e # s) = e # residual s" using none by (simp add: residual_def)
    ultimately show ?thesis using IH by simp
  next
    assume "\<exists>y. yearBucket (DataSourceID e) = Inr (Some y)"
    then obtain y0 where some: "yearBucket (DataSourceID e) = Inr (Some y0)" by blast
    then have b: "bucket y (e # s) = (if y = y0 then e # bucket y s else bucket y s)" for y
      by (simp add: bucket_def)
    have "bucket y0 (e # s) \<noteq> []" using b [of y0] by simp
    with Cons.prems(2) have in_years: "y0 \<in> set years" by auto
    have "residual (e # s) = residual s" using some by (simp add: residual_def)
    moreover have "mset (concat (map (\<lambda>y. bucket y (e # s)) years))
        = add_mset e (mset (concat (map (\<lambda>y. bucket y s) years)))"
      unfolding b by (rule mset_concat_insert [OF assms in_years])
    ultimately show ?thesis using IH by simp
  qed
qed

lemma addEpisodes_children:
  assumes "mset (srt lessEpisode eps) = mset eps" and "nodeChildren target = []"
    and "list_all (\<lambda>ep. 4 \<le> length (DataSourceID ep)) eps"
  shows "\<exists>r years. addEpisodes srt blinked target eps = Inr r \<and> distinct years \<and>
           set years = {y. bucket y (srt lessEpisode eps) \<noteq> []} \<and>
           nodeChildren r =
             map (\<lambda>y. Some (bucketNode y (bucket y (srt lessEpisode eps)))) years
             @ map (\<lambda>ep. Some (episodeNode ep)) (residual (srt lessEpisode eps))"
proof -
  let ?s = "srt lessEpisode eps"
  have "set ?s = set eps" using assms(1) by (rule mset_eq_setD)
  with assms(3) have long: "list_all (\<lambda>ep. 4 \<le> length (DataSourceID ep)) ?s"
    by (simp add: list_all_iff)
  from attachEpisodes_good [OF goodState_empty long] obtain st' where
    st': "attachEpisodes ?s ([], []) = Inr st'" "goodState ([] @ ?s) st'" by blast
  then obtain years where d: "distinct years"
    and ys: "set years = {y. bucket y ?s \<noteq> []}"
    and ch: "fst st' = map (\<lambda>y. Some (bucketNode y (bucket y ?s))) years"
    and sk: "snd st' = map episodeNode (residual ?s)"
    by (auto simp: goodState_def)
  have noshort: "\<not> list_ex (\<lambda>ep. length (DataSourceID ep) < 4) eps"
    using assms(3) by (auto simp: list_all_iff list_ex_iff)
  let ?r = "blinkNode blinked ColorYellow
              (foldl (\<lambda>t ep. AddChild (Some ep) t)
                 (TreeNode (nodeText target) (nodeReference target) (nodeColor target)
                    (nodeSelectable target) (nodeExpanded target) (fst st'))
                 (snd st'))"
  have "addEpisodes srt blinked target eps = Inr ?r"
    using st'(1) noshort assms(2) by (simp add: addEpisodes_def split_beta)
  moreover have "nodeChildren ?r = fst st' @ map Some (snd st')"
    by (simp add: nodeChildren_foldl_AddChild)
  ultimately show ?thesis using d ys ch sk by (intro exI [of _ ?r] exI [of _ years]) simp
qed

lemma yearBuckets_children:
  "nodeChildren r = map (\<lambda>y. Some (bucketNode y (f y))) years @ map (\<lambda>ep. Some (episodeNode ep)) res
   \<Longrightarrow> yearBuckets r = map (\<lambda>y. bucketNode y (f y)) years"
  by (simp add: yearBuckets_def comp_def)

lemma childEpisodes_children:
  "nodeChildren r = map (\<lambda>y. Some (bucketNode y (f y))) years @ map (\<lambda>ep. Some (episodeNode ep)) res
   \<Longrightarrow> childEpisodes r = res"
  by (simp add: childEpisodes_def comp_def)

subsection \<open>Names and the cache\<close>

lemma count_list_unique_index:
  "count_list xs (xs ! i) \<le> 1 \<Longrightarrow> i < length xs \<Longrightarrow> j < length xs \<Longrightarrow> xs ! j = xs ! i \<Longrightarrow> i = j"
proof (induction xs arbitrary: i j)
  case Nil
  then show ?case by simp
next
  case (Cons x xs)
  show ?case
  proof (cases i)
    case 0
    show ?thesis
    proof (cases j)
      case 0
      with \<open>i = 0\<close> show ?thesis by simp
    next
      case (Suc j')
      with 0 Cons.prems have "x \<in> set xs" by (metis Suc_less_eq length_Cons nth_Cons_0 nth_Cons_Suc nth_mem)
      then have "0 < count_list xs x" by (metis count_list_0_iff gr0I)
      with 0 Cons.prems(1) show ?thesis by simp
    qed
  next
    case (Suc i')
    show ?thesis
    proof (cases j)
      case 0
      with Suc Cons.prems have "x \<in> set xs" by (metis Suc_less_eq length_Cons nth_Cons_0 nth_Cons_Suc nth_mem)
      then have "0 < count_list xs x" by (metis count_list_0_iff gr0I)
      with 0 Suc Cons.prems(1,4) show ?thesis by simp
    next
      case (Suc j')
      with \<open>i = Suc i'\<close> Cons.prems have "count_list xs (xs ! i') \<le> 1" "i' < length xs" "j' < length xs"
        "xs ! j' = xs ! i'"
        by (auto split: if_splits)
      from Cons.IH [OF this] Suc \<open>i = Suc i'\<close> show ?thesis by simp
    qed
  qed
qed

lemma slotInv_other:
  assumes "goroutines s' ! i = goroutines s ! i" and "slice s' ! i = slice s ! i"
    and "dom (driverMap (shared s)) \<subseteq> dom (driverMap (shared s'))"
    and "slotInv g lines st0 s i"
  shows "slotInv g lines st0 s' i"
  using assms by (auto simp: slotInv_def split: goroutine.splits)

lemma driverStep_Lookup_hit:
  assumes "j < length (goroutines s)" and "goroutines s ! j = NotStarted"
    and "driverMap (shared s) (slice s ! j) = Some d"
  shows "driverStep g (Lookup j) s = s\<lparr>goroutines := (goroutines s)[j := Loaded d True]\<rparr>"
  using assms by (simp add: driverStep_def)

lemma driverStep_Lookup_miss:
  assumes "j < length (goroutines s)" and "goroutines s ! j = NotStarted"
    and "driverMap (shared s) (slice s ! j) = None"
  shows "driverStep g (Lookup j) s =
     s\<lparr>goroutines := (goroutines s)[j := Loaded (g (slice s ! j)) False],
       shared := (shared s)\<lparr>driverFetches := driverFetches (shared s) @ [slice s ! j]\<rparr>\<rparr>"
  using assms by (simp add: driverStep_def)

lemma driverStep_Lookup_skip:
  "\<not> (j < length (goroutines s) \<and> goroutines s ! j = NotStarted) \<Longrightarrow> driverStep g (Lookup j) s = s"
  by (auto simp: driverStep_def)

lemma driverStep_Store_loaded:
  assumes "j < length (goroutines s)" and "goroutines s ! j = Loaded d ok"
  shows "driverStep g (Store j) s =
     s\<lparr>shared := (if ok then shared s
                  else (shared s)\<lparr>driverMap := (driverMap (shared s))(slice s ! j \<mapsto> d)\<rparr>),
       slice := (slice s)[j := addNumberToName (DriverRacingnumber d) (FirstName d @ '' '' @ LastName d)],
       goroutines := (goroutines s)[j := Finished]\<rparr>"
  using assms by (simp add: driverStep_def)

lemma driverStep_Store_skip:
  "\<not> (j < length (goroutines s) \<and> (\<exists>d ok. goroutines s ! j = Loaded d ok)) \<Longrightarrow>
     driverStep g (Store j) s = s"
  by (auto simp: driverStep_def split: goroutine.splits)

lemma callInv_step:
  assumes inv: "callInv g lines st0 s"
  shows "callInv g lines st0 (driverStep g ev s)"
proof -
  from inv have len: "length (goroutines s) = length lines" "length (slice s) = length lines"
    and cd: "cachedDriver g (shared s) = cachedDriver g st0"
    and dm: "dom (driverMap st0) \<subseteq> dom (driverMap (shared s))"
    and sl: "\<And>i. i < length lines \<Longrightarrow> slotInv g lines st0 s i"
    by (simp_all add: callInv_def)
  show ?thesis
  proof (cases ev)
    case (Lookup j)
    show ?thesis
    proof (cases "j < length (goroutines s) \<and> goroutines s ! j = NotStarted")
      case False
      then show ?thesis using inv Lookup by (simp add: driverStep_Lookup_skip)
    next
      case True
      then have j: "j < length lines" and ns: "goroutines s ! j = NotStarted" using len by simp_all
      from sl [OF j] ns have key: "slice s ! j = lines ! j" by (simp add: slotInv_def)
      show ?thesis
      proof (cases "driverMap (shared s) (lines ! j)")
        case None
        let ?s' = "s\<lparr>goroutines := (goroutines s)[j := Loaded (g (lines ! j)) False],
                     shared := (shared s)\<lparr>driverFetches := driverFetches (shared s) @ [lines ! j]\<rparr>\<rparr>"
        have st: "driverStep g ev s = ?s'"
          using driverStep_Lookup_miss [of j s g] True None key Lookup by simp
        have "g (lines ! j) = cachedDriver g st0 (lines ! j)"
          using None cd [symmetric] by (simp add: cachedDriver_def)
        then have sj: "slotInv g lines st0 ?s' j"
          using j len key by (simp add: slotInv_def)
        have so: "slotInv g lines st0 ?s' i" if "i < length lines" "i \<noteq> j" for i
          using that sl [of i] by (intro slotInv_other [of ?s' i s]) simp_all
        have slots: "\<forall>i<length lines. slotInv g lines st0 ?s' i"
          using sj so by blast
        have "cachedDriver g (shared ?s') = cachedDriver g st0"
          using cd by (simp add: cachedDriver_def fun_eq_iff)
        then show ?thesis
          unfolding st callInv_def using len dm slots by simp
      next
        case (Some d)
        let ?s' = "s\<lparr>goroutines := (goroutines s)[j := Loaded d True]\<rparr>"
        have st: "driverStep g ev s = ?s'"
          using driverStep_Lookup_hit [of j s d g] True Some key Lookup by simp
        have "d = cachedDriver g st0 (lines ! j)"
          using Some cd [symmetric] by (simp add: cachedDriver_def)
        then have sj: "slotInv g lines st0 ?s' j"
          using j len key Some by (auto simp: slotInv_def)
        have so: "slotInv g lines st0 ?s' i" if "i < length lines" "i \<noteq> j" for i
          using that sl [of i] by (intro slotInv_other [of ?s' i s]) simp_all
        have slots: "\<forall>i<length lines. slotInv g lines st0 ?s' i"
          using sj so by blast
        show ?thesis
          unfolding st callInv_def using len dm cd slots by simp
      qed
    qed
  next
    case (Store j)
    show ?thesis
    proof (cases "j < length (goroutines s) \<and> (\<exists>d ok. goroutines s ! j = Loaded d ok)")
      case False
      then show ?thesis using inv Store by (simp add: driverStep_Store_skip)
    next
      case True
      then obtain d ok where j: "j < length lines" and ld: "goroutines s ! j = Loaded d ok"
        using len by auto
      from sl [OF j] ld have key: "slice s ! j = lines ! j"
        and d: "d = cachedDriver g st0 (lines ! j)"
        and okdom: "ok \<longrightarrow> lines ! j \<in> dom (driverMap (shared s))"
        by (simp_all add: slotInv_def)
      let ?sh = "(if ok then shared s
                  else (shared s)\<lparr>driverMap := (driverMap (shared s))(lines ! j \<mapsto> d)\<rparr>)"
      let ?s' = "s\<lparr>shared := ?sh,
                   slice := (slice s)[j := addNumberToName (DriverRacingnumber d) (FirstName d @ '' '' @ LastName d)],
                   goroutines := (goroutines s)[j := Finished]\<rparr>"
      have st: "driverStep g ev s = ?s'"
        using driverStep_Store_loaded [of j s d ok g] j len ld key Store by simp
      have cd': "cachedDriver g ?sh = cachedDriver g st0"
      proof (rule ext)
        fix k show "cachedDriver g ?sh k = cachedDriver g st0 k"
          using cd d by (cases "k = lines ! j") (auto simp: cachedDriver_def fun_eq_iff)
      qed
      have dm': "dom (driverMap (shared s)) \<subseteq> dom (driverMap ?sh)" by auto
      have jdom: "lines ! j \<in> dom (driverMap ?sh)" using okdom by auto
      have sj: "slotInv g lines st0 ?s' j"
        using j len d jdom by (simp add: slotInv_def driverDisplay_def Let_def)
      have so: "slotInv g lines st0 ?s' i" if "i < length lines" "i \<noteq> j" for i
        using that sl [of i] dm' by (intro slotInv_other [of ?s' i s]) simp_all
      have slots: "\<forall>i<length lines. slotInv g lines st0 ?s' i"
        using sj so by blast
      have "dom (driverMap st0) \<subseteq> dom (driverMap ?sh)" using dm dm' by blast
      then show ?thesis
        unfolding st callInv_def using len cd' slots by simp
    qed
  qed
qed

lemma logInv_step:
  assumes inv: "callInv g lines st0 s" and lg: "logInv lines st0 s"
  shows "logInv lines st0 (driverStep g ev s)"
proof -
  from inv have len: "length (goroutines s) = length lines"
    and dm: "dom (driverMap st0) \<subseteq> dom (driverMap (shared s))"
    and sl: "\<And>i. i < length lines \<Longrightarrow> slotInv g lines st0 s i"
    by (simp_all add: callInv_def)
  from lg obtain fs where fs: "driverFetches (shared s) = driverFetches st0 @ fs"
    and disj: "set fs \<inter> dom (driverMap st0) = {}" and sub: "set fs \<subseteq> set lines"
    and cnt: "\<And>i. i < length lines \<Longrightarrow> count_list lines (lines ! i) \<le> 1 \<Longrightarrow>
           count_list fs (lines ! i) \<le> (if goroutines s ! i = NotStarted then 0 else 1)"
    by (auto simp: logInv_def)
  show ?thesis
  proof (cases ev)
    case (Lookup j)
    show ?thesis
    proof (cases "j < length (goroutines s) \<and> goroutines s ! j = NotStarted")
      case False
      then show ?thesis using lg Lookup by (simp add: driverStep_Lookup_skip)
    next
      case True
      then have j: "j < length lines" and ns: "goroutines s ! j = NotStarted" using len by simp_all
      from sl [OF j] ns have key: "slice s ! j = lines ! j" by (simp add: slotInv_def)
      show ?thesis
      proof (cases "driverMap (shared s) (lines ! j)")
        case (Some d)
        let ?s' = "s\<lparr>goroutines := (goroutines s)[j := Loaded d True]\<rparr>"
        have st: "driverStep g ev s = ?s'"
          using driverStep_Lookup_hit [of j s d g] True Some key Lookup by simp
        have "count_list fs (lines ! i) \<le> (if goroutines ?s' ! i = NotStarted then 0 else 1)"
          if "i < length lines" "count_list lines (lines ! i) \<le> 1" for i
          using cnt [OF that] that(1) len by (cases "i = j") (auto split: if_splits)
        then show ?thesis
          unfolding st logInv_def using fs disj sub by (intro exI [of _ fs]) simp
      next
        case None
        let ?s' = "s\<lparr>goroutines := (goroutines s)[j := Loaded (g (lines ! j)) False],
                     shared := (shared s)\<lparr>driverFetches := driverFetches (shared s) @ [lines ! j]\<rparr>\<rparr>"
        have st: "driverStep g ev s = ?s'"
          using driverStep_Lookup_miss [of j s g] True None key Lookup by simp
        have notin: "lines ! j \<notin> dom (driverMap st0)" using None dm by auto
        have "count_list (fs @ [lines ! j]) (lines ! i)
                \<le> (if goroutines ?s' ! i = NotStarted then 0 else 1)"
          if i: "i < length lines" "count_list lines (lines ! i) \<le> 1" for i
        proof (cases "lines ! i = lines ! j")
          case True
          from count_list_unique_index [OF i(2) i(1) j] True have "i = j" by simp
          with cnt [OF i] ns j len show ?thesis by simp
        next
          case False
          then have "i \<noteq> j" by auto
          with cnt [OF i] False i(1) len show ?thesis by simp
        qed
        then show ?thesis
          unfolding st logInv_def using fs disj sub notin j
          by (intro exI [of _ "fs @ [lines ! j]"]) simp
      qed
    qed
  next
    case (Store j)
    show ?thesis
    proof (cases "j < length (goroutines s) \<and> (\<exists>d ok. goroutines s ! j = Loaded d ok)")
      case False
      then show ?thesis using lg Store by (simp add: driverStep_Store_skip)
    next
      case True
      then obtain d ok where j: "j < length lines" and ld: "goroutines s ! j = Loaded d ok"
        using len by auto
      have st: "driverFetches (shared (driverStep g ev s)) = driverFetches (shared s)"
        "goroutines (driverStep g ev s) = (goroutines s)[j := Finished]"
        using driverStep_Store_loaded [of j s d ok g] j len ld Store by simp_all
      have "count_list fs (lines ! i)
              \<le> (if goroutines (driverStep g ev s) ! i = NotStarted then 0 else 1)"
        if "i < length lines" "count_list lines (lines ! i) \<le> 1" for i
        using cnt [OF that] that(1) len ld unfolding st by (cases "i = j") (auto split: if_splits)
      then show ?thesis
        unfolding logInv_def st using fs disj sub by (intro exI [of _ fs]) simp
    qed
  qed
qed

lemma inv_start: "callInv g lines st (startCall lines st)" "logInv lines st (startCall lines st)"
  by (simp_all add: callInv_def logInv_def startCall_def slotInv_def)

lemma inv_run:
  "callInv g lines st0 s \<Longrightarrow> logInv lines st0 s \<Longrightarrow>
     callInv g lines st0 (foldl (\<lambda>s ev. driverStep g ev s) s schedule)
     \<and> logInv lines st0 (foldl (\<lambda>s ev. driverStep g ev s) s schedule)"
  by (induction schedule arbitrary: s) (simp_all add: callInv_step logInv_step)

lemma getDriverNames_Some:
  assumes "getDriverNames g schedule lines st = Some (names, st1)"
  shows "names = sort (map (driverDisplay g st) lines)"
    and "set lines \<subseteq> dom (driverMap st1)"
    and "\<exists>fs. driverFetches st1 = driverFetches st @ fs \<and> set fs \<inter> dom (driverMap st) = {}
           \<and> set fs \<subseteq> set lines
           \<and> (\<forall>line. count_list lines line = 1 \<longrightarrow> count_list fs line \<le> 1)"
proof -
  let ?s = "foldl (\<lambda>s ev. driverStep g ev s) (startCall lines st) schedule"
  from assms have fin: "list_all (\<lambda>g. g = Finished) (goroutines ?s)"
    and res: "names = sort (slice ?s)" "st1 = shared ?s"
    by (auto simp: getDriverNames_def runCall_def Let_def split: if_splits)
  from inv_run [OF inv_start, of g lines st schedule]
  have ci: "callInv g lines st ?s" and li: "logInv lines st ?s" by simp_all
  from ci have len: "length (goroutines ?s) = length lines" "length (slice ?s) = length lines"
    and sl: "\<And>i. i < length lines \<Longrightarrow> slotInv g lines st ?s i"
    by (simp_all add: callInv_def)
  have finished: "goroutines ?s ! i = Finished" if "i < length lines" for i
    using fin that len by (simp add: list_all_length)
  have slot: "slice ?s ! i = driverDisplay g st (lines ! i) \<and> lines ! i \<in> dom (driverMap (shared ?s))"
    if "i < length lines" for i
    using sl [OF that] finished [OF that] by (simp add: slotInv_def)
  have "slice ?s = map (driverDisplay g st) lines"
    by (rule nth_equalityI) (simp_all add: len slot)
  then show "names = sort (map (driverDisplay g st) lines)" using res by simp
  show "set lines \<subseteq> dom (driverMap st1)"
  proof
    fix line assume "line \<in> set lines"
    then obtain i where "i < length lines" "lines ! i = line" by (auto simp: in_set_conv_nth)
    with slot [of i] show "line \<in> dom (driverMap st1)" unfolding res by blast
  qed
  from li obtain fs where fs: "driverFetches (shared ?s) = driverFetches st @ fs"
    and disj: "set fs \<inter> dom (driverMap st) = {}" and sub: "set fs \<subseteq> set lines"
    and cnt: "\<And>i. i < length lines \<Longrightarrow> count_list lines (lines ! i) \<le> 1 \<Longrightarrow>
           count_list fs (lines ! i) \<le> (if goroutines ?s ! i = NotStarted then 0 else 1)"
    by (auto simp: logInv_def)
  have "count_list fs line \<le> 1" if "count_list lines line = 1" for line
  proof -
    from that have "line \<in> set lines" by (metis count_list_0_iff zero_neq_one)
    then obtain i where i: "i < length lines" "lines ! i = line" by (auto simp: in_set_conv_nth)
    from cnt [OF i(1)] that i finished [OF i(1)] show ?thesis by simp
  qed
  then show "\<exists>fs. driverFetches st1 = driverFetches st @ fs \<and> set fs \<inter> dom (driverMap st) = {}
           \<and> set fs \<subseteq> set lines
           \<and> (\<forall>line. count_list lines line = 1 \<longrightarrow> count_list fs line \<le> 1)"
    unfolding res using fs disj sub by blast
qed

lemma driverStep_length [simp]:
  "length (goroutines (driverStep g ev s)) = length (goroutines s)"
  by (auto simp: driverStep_def split: step.splits option.splits goroutine.splits)

lemma driverStep_started:
  "goroutines s ! i \<noteq> NotStarted \<Longrightarrow> i < length (goroutines s) \<Longrightarrow>
     goroutines (driverStep g ev s) ! i \<noteq> NotStarted"
  by (auto simp: driverStep_def nth_list_update split: step.splits option.splits goroutine.splits)

lemma driverStep_finished:
  "goroutines s ! i = Finished \<Longrightarrow> i < length (goroutines s) \<Longrightarrow>
     goroutines (driverStep g ev s) ! i = Finished"
  by (auto simp: driverStep_def nth_list_update split: step.splits option.splits goroutine.splits)

lemma driverStep_Lookup_starts:
  "j < length (goroutines s) \<Longrightarrow> goroutines (driverStep g (Lookup j) s) ! j \<noteq> NotStarted"
  by (auto simp: driverStep_def split: option.splits)

lemma driverStep_Store_finishes:
  "j < length (goroutines s) \<Longrightarrow> goroutines s ! j \<noteq> NotStarted \<Longrightarrow>
     goroutines (driverStep g (Store j) s) ! j = Finished"
  by (auto simp: driverStep_def split: goroutine.splits)

lemma run_length [simp]:
  "length (goroutines (foldl (\<lambda>s ev. driverStep g ev s) s schedule)) = length (goroutines s)"
  by (induction schedule arbitrary: s) simp_all

lemma lookups_run:
  "\<forall>i<length (goroutines s). i \<in> set js \<or> goroutines s ! i \<noteq> NotStarted \<Longrightarrow>
     \<forall>i<length (goroutines s).
        goroutines (foldl (\<lambda>s ev. driverStep g ev s) s (map Lookup js)) ! i \<noteq> NotStarted"
proof (induction js arbitrary: s)
  case Nil
  then show ?case by simp
next
  case (Cons j js)
  let ?s1 = "driverStep g (Lookup j) s"
  have "\<forall>i<length (goroutines ?s1). i \<in> set js \<or> goroutines ?s1 ! i \<noteq> NotStarted"
  proof (intro allI impI)
    fix i assume i: "i < length (goroutines ?s1)"
    show "i \<in> set js \<or> goroutines ?s1 ! i \<noteq> NotStarted"
    proof (cases "i = j")
      case True
      with i show ?thesis using driverStep_Lookup_starts [of j s g] by simp
    next
      case False
      with Cons.prems i show ?thesis using driverStep_started [of s i g "Lookup j"] by auto
    qed
  qed
  from Cons.IH [OF this] show ?case by simp
qed

lemma stores_run:
  "\<forall>i<length (goroutines s). goroutines s ! i \<noteq> NotStarted
        \<and> (i \<in> set js \<or> goroutines s ! i = Finished) \<Longrightarrow>
     \<forall>i<length (goroutines s).
        goroutines (foldl (\<lambda>s ev. driverStep g ev s) s (map Store js)) ! i = Finished"
proof (induction js arbitrary: s)
  case Nil
  then show ?case by simp
next
  case (Cons j js)
  let ?s1 = "driverStep g (Store j) s"
  have "\<forall>i<length (goroutines ?s1). goroutines ?s1 ! i \<noteq> NotStarted
          \<and> (i \<in> set js \<or> goroutines ?s1 ! i = Finished)"
  proof (intro allI impI)
    fix i assume i: "i < length (goroutines ?s1)"
    then have il: "i < length (goroutines s)" by simp
    with Cons.prems have ns: "goroutines s ! i \<noteq> NotStarted" by simp
    then have a: "goroutines ?s1 ! i \<noteq> NotStarted" using il by (rule driverStep_started)
    have "i \<in> set js \<or> goroutines ?s1 ! i = Finished"
    proof (cases "i = j")
      case True
      with il ns show ?thesis using driverStep_Store_finishes [of j s g] by simp
    next
      case False
      with Cons.prems il show ?thesis using driverStep_finished [of s i g "Store j"] by auto
    qed
    with a show "goroutines ?s1 ! i \<noteq> NotStarted \<and> (i \<in> set js \<or> goroutines ?s1 ! i = Finished)"
      by simp
  qed
  from Cons.IH [OF this] show ?case by simp
qed

lemma finishAll_returns:
  "getDriverNames g (schedule @ finishAll (length lines)) lines st \<noteq> None"
proof -
  let ?f = "\<lambda>s ev. driverStep g ev s"
  let ?s1 = "foldl ?f (startCall lines st) schedule"
  let ?s2 = "foldl ?f ?s1 (map Lookup [0..<length lines])"
  let ?s3 = "foldl ?f ?s2 (map Store [0..<length lines])"
  have len: "length (goroutines ?s1) = length lines" by (simp add: startCall_def)
  have "\<forall>i<length (goroutines ?s1). goroutines ?s2 ! i \<noteq> NotStarted"
    by (rule lookups_run) (simp add: startCall_def)
  then have "\<forall>i<length (goroutines ?s2). goroutines ?s3 ! i = Finished"
    by (intro stores_run) (simp add: startCall_def)
  then have "list_all (\<lambda>g. g = Finished) (goroutines ?s3)"
    by (simp add: list_all_length)
  then show ?thesis
    by (simp add: getDriverNames_def runCall_def Let_def finishAll_def)
qed

subsection \<open>Seasons and events\<close>

lemma isValidSession_simps [simp]:
  "isValidSession None = False"
  "isValidSession (Some n) = (nodeChildren n \<noteq> [])"
  by (simp_all add: isValidSession_def)

lemma attachSessions_none: "validSessions sessions = [] \<Longrightarrow> attachSessions sessions st = st"
  by (induction sessions st rule: attachSessions.induct)
    (simp_all add: validSessions_def split: if_splits)


lemma attachSessions_children:
  "nodeChildren (snd (attachSessions sessions st)) = nodeChildren (snd st) @ validSessions sessions
   \<and> fst (attachSessions sessions st) = (fst st \<or> validSessions sessions \<noteq> [])"
  by (induction sessions st rule: attachSessions.induct) (simp_all add: validSessions_def)

lemma nodeChildren_expandEvent:
  assumes "getSessionNodes getSession getSessionStreams srt event = Inr sessions"
  shows "\<exists>r. expandEvent getSession getSessionStreams srt blinked node event = Inr r
           \<and> nodeChildren r = nodeChildren node @ validSessions sessions"
proof -
  have "nodeChildren (snd (attachSessions sessions (False, node)))
      = nodeChildren node @ validSessions sessions"
    using attachSessions_children [of sessions "(False, node)"] by simp
  then show ?thesis
    using assms by (simp add: expandEvent_def split_beta Let_def)
qed


subsection \<open>Runs of an expansion\<close>



















subsection \<open>Downloads of a dispatch\<close>

lemma substituteToken_state:
  "substituteToken d url title s st = (s', st') \<Longrightarrow> downloadsOk st \<Longrightarrow>
     downloadsOk st' \<and> fileLoaded st' = (fileLoaded st \<or> Contains s ''$file'') \<and> started st' = started st"
  by (auto simp: substituteToken_def downloadsOk_def Let_def split: if_splits)

lemma substituteTokens_state:
  "substituteTokens d url title tokens st = (tokens', st') \<Longrightarrow> downloadsOk st \<Longrightarrow>
     downloadsOk st' \<and> fileLoaded st' = (fileLoaded st \<or> list_ex (\<lambda>s. Contains s ''$file'') tokens)"
proof (induction tokens arbitrary: st tokens' st')
  case Nil
  then show ?case by simp
next
  case (Cons s tokens)
  obtain s1 st1 where a: "substituteToken d url title s st = (s1, st1)" by force
  obtain ts st2 where b: "substituteTokens d url title tokens st1 = (ts, st2)" by force
  from Cons.prems(1) a b have st': "st' = st2" by simp
  from substituteToken_state [OF a Cons.prems(2)] Cons.IH [OF b] st'
  show ?case by auto
qed

lemma downloadsOk_started [simp]: "downloadsOk (st\<lparr>started := x\<rparr>) = downloadsOk st"
  by (simp add: downloadsOk_def)

lemma runCommands_state:
  "downloadsOk st \<Longrightarrow>
     downloadsOk (runCommands d url title cmds st) \<and>
     fileLoaded (runCommands d url title cmds st) = (fileLoaded st \<or> mentionsFile cmds)"
proof (induction cmds arbitrary: st)
  case Nil
  then show ?case by (simp add: mentionsFile_def)
next
  case (Cons cmd cmds)
  show ?case
  proof (cases "cmd = []")
    case True
    with Cons show ?thesis by (simp add: mentionsFile_def)
  next
    case False
    obtain ts st1 where a: "substituteTokens d url title cmd st = (ts, st1)" by force
    from substituteTokens_state [OF a Cons.prems]
    have "downloadsOk (st1\<lparr>started := started st1 @ [ts]\<rparr>)"
      and "fileLoaded (st1\<lparr>started := started st1 @ [ts]\<rparr>)
            = (fileLoaded st \<or> list_ex (\<lambda>s. Contains s ''$file'') cmd)"
      by simp_all
    with Cons.IH [of "st1\<lparr>started := started st1 @ [ts]\<rparr>"] a False
    show ?thesis by (auto simp: mentionsFile_def)
  qed
qed

section \<open>Claims\<close>

text \<open>
  C1. For an identifier whose first four bytes are a number (\<^verbatim>\<open>strconv.Atoi\<close>
  accepts them, as it does every four decimal digits): when these bytes are
  \<^verbatim>\<open>2018\<close> or \<^verbatim>\<open>2019\<close> the year is that token, for the guarded function and for the
  bucket of \<^verbatim>\<open>addEpisodes\<close>, and the race number is the constant \<^verbatim>\<open>0\<close>; otherwise
  the year is \<^verbatim>\<open>20\<close> or \<^verbatim>\<open>19\<close> followed by the first two bytes, \<^verbatim>\<open>20\<close> when their
  value is below 30, and the race number is the third and fourth byte. The value
  of two decimal digits is their decimal value.
\<close>

theorem year_and_race_of_numeric_prefix:
  assumes "numericPrefix input"
  shows "(take 4 input = ''2018'' \<or> take 4 input = ''2019'' \<longrightarrow>
            getYearAndRace_v2 input = (take 4 input, ''0'', None) \<and>
            yearBucket input = Inr (Some (take 4 input)))
       \<and> (take 4 input \<noteq> ''2018'' \<and> take 4 input \<noteq> ''2019'' \<longrightarrow>
            getYearAndRace_v2 input =
              ((if fst (Atoi (take 2 input)) < 30 then ''20'' else ''19'') @ take 2 input,
               take 2 (drop 2 input), None) \<and>
            getYearAndRace input =
              Inr ((if fst (Atoi (take 2 input)) < 30 then ''20'' else ''19'') @ take 2 input,
                   take 2 (drop 2 input)) \<and>
            yearBucket input =
              Inr (Some ((if fst (Atoi (take 2 input)) < 30 then ''20'' else ''19'')
                         @ take 2 input)))
       \<and> (list_all isDigit (take 2 input) \<longrightarrow>
            fst (Atoi (take 2 input)) = int (decimalVal (take 2 input)))"
proof -
  from assms have len: "4 \<le> length input" and ok: "snd (Atoi (take 4 input)) = None"
    by (simp_all add: numericPrefix_def)
  have "take 2 input \<noteq> []" using len by auto
  then have dig: "list_all isDigit (take 2 input) \<longrightarrow>
      fst (Atoi (take 2 input)) = int (decimalVal (take 2 input))"
    by (simp add: Atoi_digits)
  from len ok show ?thesis
    using dig by (auto simp: getYearAndRace_v2_def yearBucket_def getYearAndRace_def Let_def)
qed

theorem year_and_race_of_numeric_prefix_witness:
  "numericPrefix ''0501abc'' \<and> numericPrefix ''2018xyz'' \<and> numericPrefix ''9912''
   \<and> getYearAndRace_v2 ''0501abc'' = (''2005'', ''01'', None)
   \<and> getYearAndRace ''0501abc'' = Inr (''2005'', ''01'')
   \<and> yearBucket ''0501abc'' = Inr (Some ''2005'')
   \<and> getYearAndRace_v2 ''2018xyz'' = (''2018'', ''0'', None)
   \<and> yearBucket ''2018xyz'' = Inr (Some ''2018'')
   \<and> getYearAndRace_v2 ''9912'' = (''1999'', ''12'', None)"
proof -
  have a: "numericPrefix ''0501abc''" and b: "numericPrefix ''2018xyz''"
    and c: "numericPrefix ''9912''"
    by (simp_all add: numericPrefix_def Atoi_def isDigit_def decimalVal_def digitVal_def)
  have v: "fst (Atoi ''05'') = 5" "fst (Atoi ''99'') = 99"
    by (simp_all add: Atoi_def isDigit_def decimalVal_def digitVal_def)
  show ?thesis
    using a b c v year_and_race_of_numeric_prefix [OF a] year_and_race_of_numeric_prefix [OF b]
      year_and_race_of_numeric_prefix [OF c]
    by simp
qed

text \<open>
  C2. The specification: \<^verbatim>\<open>addEpisodes\<close> never panics, and an episode whose
  identifier has fewer than four bytes goes to the end of the list. The code: both
  \<^verbatim>\<open>DataSourceID[:4]\<close> (lines 645 and 662) panic on such an identifier, so the
  call panics whenever one is among the loaded episodes, whatever the sort does.
\<close>

theorem addEpisodes_short_identifier_panics:
  assumes "sortContract srt"
    and "list_ex (\<lambda>ep. length (DataSourceID ep) < 4) episodes"
  shows "addEpisodes srt blinked target episodes = Inl SliceBoundsOutOfRange"
proof (cases "2 \<le> length episodes")
  case True
  with assms(2) show ?thesis by (simp add: addEpisodes_def)
next
  case False
  with assms(2) obtain ep where ep: "episodes = [ep]" "length (DataSourceID ep) < 4"
    by (cases episodes; cases "tl episodes") auto
  from assms(1) have "mset (srt lessEpisode [ep]) = mset [ep]"
    by (simp add: sortContract_def)
  then have "srt lessEpisode [ep] = [ep]" by simp
  with ep show ?thesis
    by (simp add: addEpisodes_def attachEpisode_def yearBucket_def Let_def)
qed

theorem addEpisodes_short_identifier_panics_witness:
  "sortContract (insertionSort :: (episodeStruct \<Rightarrow> episodeStruct \<Rightarrow> bool) \<Rightarrow> _)
   \<and> list_ex (\<lambda>ep. length (DataSourceID ep) < 4) [episodeWith ''Race'' ''0501abc'', episodeWith [] []]
   \<and> addEpisodes insertionSort True (NewTreeNode ''Category'')
        [episodeWith ''Race'' ''0501abc'', episodeWith [] []] = Inl SliceBoundsOutOfRange"
proof -
  have h: "list_ex (\<lambda>ep. length (DataSourceID ep) < 4)
             [episodeWith ''Race'' ''0501abc'', episodeWith [] []]"
    by (simp add: episodeWith_def)
  show ?thesis
    using h insertionSort_contract
      addEpisodes_short_identifier_panics [OF insertionSort_contract h, of True "NewTreeNode ''Category''"]
    by simp
qed

text \<open>
  C3. The statement of the specification fails in two ways. When identifiers that
  are a year and race code are mixed with others, the comparison is not
  transitive, and the sort may leave two episodes of a year in the wrong order.
  And the comparison takes the pair of an identifier that begins with \<^verbatim>\<open>2018\<close> or
  \<^verbatim>\<open>2019\<close> from the unguarded \<^verbatim>\<open>getYearAndRace\<close> (line 651), without the special
  case of line 668: under the year 2018 such an episode comes after those whose
  identifier begins with \<^verbatim>\<open>18\<close>, although its race number is \<^verbatim>\<open>0\<close>. What holds:
  when the comparison is a strict weak order on the loaded episodes, the target
  has no children yet and no identifier is shorter than four bytes, the call
  returns; in every year node whose identifiers all begin with \<^verbatim>\<open>2018\<close> or
  \<^verbatim>\<open>2019\<close>, or of which none does, the episodes are in the order of their pairs
  of year and race number; the episodes kept for the end are in the order of their
  titles; every loaded episode is in the tree once; and the comparison of two
  loaded episodes of which one has no year and race code is that of their titles.
\<close>

theorem buckets_in_year_race_order:
  assumes "sortContract srt" and "nodeChildren target = []"
    and "list_all (\<lambda>ep. 4 \<le> length (DataSourceID ep)) episodes"
    and "strictWeakOn (set episodes) lessEpisode"
  shows "\<exists>r. addEpisodes srt blinked target episodes = Inr r
           \<and> list_all (\<lambda>b. sameScheme (childEpisodes b) \<longrightarrow>
                            sorted_wrt inYearRaceOrder (childEpisodes b)) (yearBuckets r)
           \<and> sorted_wrt (\<lambda>a b. Title a \<le> Title b) (childEpisodes r)
           \<and> mset (concat (map childEpisodes (yearBuckets r)) @ childEpisodes r) = mset episodes
           \<and> (\<forall>a\<in>set episodes. \<forall>b\<in>set episodes.
                 \<not> numericPrefix (DataSourceID a) \<or> \<not> numericPrefix (DataSourceID b) \<longrightarrow>
                 lessEpisode a b = (Title a < Title b))"
proof -
  let ?s = "srt lessEpisode episodes"
  from assms(1) have perm: "mset ?s = mset episodes"
    and srt: "strictWeakOn (set episodes) lessEpisode \<longrightarrow> sorted_wrt (\<lambda>a b. \<not> lessEpisode b a) ?s"
    by (simp_all add: sortContract_def)
  from srt assms(4) have sorted: "sorted_wrt (\<lambda>a b. \<not> lessEpisode b a) ?s" by simp
  from addEpisodes_children [of srt episodes target blinked, OF perm assms(2,3)] obtain r years where
    r: "addEpisodes srt blinked target episodes = Inr r"
    and d: "distinct years" and ys: "set years = {y. bucket y ?s \<noteq> []}"
    and ch: "nodeChildren r =
             map (\<lambda>y. Some (bucketNode y (bucket y ?s))) years
             @ map (\<lambda>ep. Some (episodeNode ep)) (residual ?s)"
    by blast
  have yb: "yearBuckets r = map (\<lambda>y. bucketNode y (bucket y ?s)) years"
    using ch by (rule yearBuckets_children)
  have "sameScheme (childEpisodes b) \<longrightarrow> sorted_wrt inYearRaceOrder (childEpisodes b)"
    if "b \<in> set (yearBuckets r)" for b
  proof -
    from that yb obtain y where "b = bucketNode y (bucket y ?s)" by auto
    then show ?thesis using sorted_bucket [OF sorted, of y] by simp
  qed
  then have "list_all (\<lambda>b. sameScheme (childEpisodes b) \<longrightarrow>
                sorted_wrt inYearRaceOrder (childEpisodes b)) (yearBuckets r)"
    by (simp add: list_all_iff)
  moreover have ce: "childEpisodes r = residual ?s"
    using ch by (rule childEpisodes_children)
  then have "sorted_wrt (\<lambda>a b. Title a \<le> Title b) (childEpisodes r)"
    using sorted_residual [OF sorted] by simp
  moreover have "mset (concat (map childEpisodes (yearBuckets r)) @ childEpisodes r) = mset episodes"
  proof -
    have "set ?s = set episodes" using perm by (rule mset_eq_setD)
    with assms(3) have long: "list_all (\<lambda>ep. 4 \<le> length (DataSourceID ep)) ?s"
      by (simp add: list_all_iff)
    have "concat (map childEpisodes (yearBuckets r)) = concat (map (\<lambda>y. bucket y ?s) years)"
      by (simp add: yb comp_def)
    then show ?thesis
      using mset_buckets [OF d long] ys perm ce by simp
  qed
  moreover have "\<forall>a\<in>set episodes. \<forall>b\<in>set episodes.
                 \<not> numericPrefix (DataSourceID a) \<or> \<not> numericPrefix (DataSourceID b) \<longrightarrow>
                 lessEpisode a b = (Title a < Title b)"
  proof (intro ballI impI)
    fix a b
    assume "a \<in> set episodes" "b \<in> set episodes"
      and n: "\<not> numericPrefix (DataSourceID a) \<or> \<not> numericPrefix (DataSourceID b)"
    with assms(3) have "4 \<le> length (DataSourceID a)" "4 \<le> length (DataSourceID b)"
      by (simp_all add: list_all_iff)
    then show "lessEpisode a b = (Title a < Title b)"
      using n by (rule lessEpisode_not_numeric)
  qed
  ultimately show ?thesis using r by blast
qed

theorem buckets_in_year_race_order_witness:
  "sortContract (insertionSort :: (episodeStruct \<Rightarrow> episodeStruct \<Rightarrow> bool) \<Rightarrow> _)
   \<and> nodeChildren (NewTreeNode ''Category'') = []
   \<and> list_all (\<lambda>ep. 4 \<le> length (DataSourceID ep))
        [episodeWith ''a'' ''0503x'', episodeWith ''z'' ''0501x'']
   \<and> strictWeakOn (set [episodeWith ''a'' ''0503x'', episodeWith ''z'' ''0501x'']) lessEpisode
   \<and> (case addEpisodes insertionSort True (NewTreeNode ''Category'')
              [episodeWith ''a'' ''0503x'', episodeWith ''z'' ''0501x''] of
         Inl _ \<Rightarrow> False
       | Inr r \<Rightarrow>
           map nodeText (yearBuckets r) = [''2005''] \<and>
           map (map DataSourceID \<circ> childEpisodes) (yearBuckets r) = [[''0501x'', ''0503x'']] \<and>
           list_all (\<lambda>b. sameScheme (childEpisodes b) \<and>
                          sorted_wrt inYearRaceOrder (childEpisodes b)) (yearBuckets r))"
proof -
  let ?eps = "[episodeWith ''a'' ''0503x'', episodeWith ''z'' ''0501x'']"
  have h2: "nodeChildren (NewTreeNode ''Category'') = []"
    by (simp add: NewTreeNode_def)
  have h3: "list_all (\<lambda>ep. 4 \<le> length (DataSourceID ep)) ?eps"
    by (simp add: episodeWith_def)
  have "list_all (\<lambda>ep. numericPrefix (DataSourceID ep)) ?eps"
    by (simp add: episodeWith_def numericPrefix_digits isDigit_def)
  then have h4: "strictWeakOn (set ?eps) lessEpisode"
    by (rule strictWeakOn_all_numeric)
  let ?r = "TreeNode ''Category'' RefNil ColorYellow True True
            [Some (TreeNode ''2005'' (RefString ''2005'') PrimaryTextColor True False
               [Some (episodeNode (episodeWith ''z'' ''0501x'')),
                Some (episodeNode (episodeWith ''a'' ''0503x''))])]"
  have e: "addEpisodes insertionSort True (NewTreeNode ''Category'') ?eps = Inr ?r"
    by code_simp
  have a: "map nodeText (yearBuckets ?r) = [''2005'']"
    and b: "map (map DataSourceID \<circ> childEpisodes) (yearBuckets ?r) = [[''0501x'', ''0503x'']]"
    by (simp_all add: yearBuckets_def childEpisodes_def episodeNode_def NewTreeNode_def
        episodeWith_def)
  have ss: "list_all (\<lambda>b. sameScheme (childEpisodes b)) (yearBuckets ?r)"
    by code_simp
  from buckets_in_year_race_order [OF insertionSort_contract h2 h3 h4, of True]
  obtain r where "Inr ?r = (Inr r :: go_panic + treeNode)"
    and "list_all (\<lambda>b. sameScheme (childEpisodes b) \<longrightarrow>
                        sorted_wrt inYearRaceOrder (childEpisodes b)) (yearBuckets r)"
    unfolding e by blast
  then have c0: "list_all (\<lambda>b. sameScheme (childEpisodes b) \<longrightarrow>
                        sorted_wrt inYearRaceOrder (childEpisodes b)) (yearBuckets ?r)"
    by simp
  from c0 ss have c: "list_all (\<lambda>b. sameScheme (childEpisodes b) \<and>
                        sorted_wrt inYearRaceOrder (childEpisodes b)) (yearBuckets ?r)"
    unfolding list_all_iff by blast
  show ?thesis
    unfolding e using insertionSort_contract h2 h3 h4 a b c by simp
qed

theorem buckets_out_of_order_counterexample:
  "(case addEpisodes insertionSort True (NewTreeNode ''Category'')
           [episodeWith ''a'' ''0503x'', episodeWith ''m'' ''xxxx'', episodeWith ''z'' ''0501x''] of
      Inl _ \<Rightarrow> False
    | Inr r \<Rightarrow>
        map nodeText (yearBuckets r) = [''2005''] \<and>
        map (map DataSourceID \<circ> childEpisodes) (yearBuckets r) = [[''0503x'', ''0501x'']])
   \<and> getYearAndRace_v2 ''0503x'' = (''2005'', ''03'', None)
   \<and> getYearAndRace_v2 ''0501x'' = (''2005'', ''01'', None)
   \<and> \<not> inYearRaceOrder (episodeWith ''a'' ''0503x'') (episodeWith ''z'' ''0501x'')
   \<and> (case addEpisodes insertionSort True (NewTreeNode ''Category'')
              [episodeWith ''a'' ''2018xyz'', episodeWith ''b'' ''1801x''] of
         Inl _ \<Rightarrow> False
       | Inr r \<Rightarrow>
           map nodeText (yearBuckets r) = [''2018''] \<and>
           map (map DataSourceID \<circ> childEpisodes) (yearBuckets r) = [[''1801x'', ''2018xyz'']])
   \<and> numericPrefix ''1801x'' \<and> numericPrefix ''2018xyz''
   \<and> getYearAndRace_v2 ''1801x'' = (''2018'', ''01'', None)
   \<and> getYearAndRace_v2 ''2018xyz'' = (''2018'', ''0'', None)
   \<and> \<not> inYearRaceOrder (episodeWith ''b'' ''1801x'') (episodeWith ''a'' ''2018xyz'')"
  by code_simp

text \<open>
  C4. The specification: a list whose first element begins with \<^verbatim>\<open>/api/team/\<close> is turned
  into team names, whatever follows the prefix. The code asks for more than 12
  bytes in both branches, the length of the driver prefix, so a team identifier of
  11 or 12 bytes is returned as it is and no team is looked up: no goroutine is
  started, and the call returns the list and the state it was given.
\<close>

theorem convertIDs_short_team_identifier:
  assumes "length line \<le> 12" and "take 10 line = ''/api/team/''"
  shows "convertIDs getDriver getTeam schedule (line # rest) st = Some (line # rest, st)"
  using assms by (simp add: convertIDs_def)

theorem convertIDs_short_team_identifier_witness:
  "length ''/api/team/12'' \<le> 12 \<and> take 10 ''/api/team/12'' = ''/api/team/''
   \<and> convertIDs (driverNumbered 44) (\<lambda>line. \<lparr>team_Name = ''Mercedes''\<rparr>) [Lookup 0, Store 0]
        [''/api/team/12''] emptyCaches = Some ([''/api/team/12''], emptyCaches)
   \<and> map_option fst (convertIDs (driverNumbered 44) (\<lambda>line. \<lparr>team_Name = ''Mercedes''\<rparr>)
        [Lookup 0, Store 0] [''/api/team/123''] emptyCaches) = Some [''Mercedes'']"
proof -
  have h1: "length ''/api/team/12'' \<le> 12" and h2: "take 10 ''/api/team/12'' = ''/api/team/''"
    by simp_all
  have e: "map_option fst (convertIDs (driverNumbered 44) (\<lambda>line. \<lparr>team_Name = ''Mercedes''\<rparr>)
        [Lookup 0, Store 0] [''/api/team/123''] emptyCaches) = Some [''Mercedes'']"
    by code_simp
  show ?thesis
    using h1 h2 e convertIDs_short_team_identifier [OF h1 h2, of "driverNumbered 44"
        "\<lambda>line. \<lparr>team_Name = ''Mercedes''\<rparr>" "[Lookup 0, Store 0]" "[]" emptyCaches]
    by simp
qed

text \<open>
  C5. The statement of the specification fails for a list that holds an
  identifier twice: both goroutines can miss the cache before either of them
  stores the driver, and then each makes the remote call. What holds, for two
  calls of \<^verbatim>\<open>getDriverNames\<close> in a row that return, under any schedules and from any
  state of the cache, the remote call being a function of the identifier: the
  names of the first call are sorted; they are the sorted names of the drivers of
  the identifiers, so every permutation of the list and every schedule give the
  same names; the second call makes no remote call for an identifier of the first
  list; over both calls an identifier that the first list holds once is fetched at
  most once; and after any steps the first call can go on to its end and return.
\<close>

theorem getDriverNames_sorted_and_cached:
  assumes "getDriverNames getDriver schedule lines st = Some (names, st1)"
    and "getDriverNames getDriver schedule2 lines2 st1 = Some (names2, st2)"
  shows "sorted names
    \<and> names = sort (map (driverDisplay getDriver st) lines)
    \<and> (\<forall>lines' schedule' names' st'.
          mset lines' = mset lines \<and>
          getDriverNames getDriver schedule' lines' st = Some (names', st') \<longrightarrow> names' = names)
    \<and> (\<forall>line\<in>set lines. line \<notin> set (fetchedSince st1 st2))
    \<and> (\<forall>line. count_list lines line = 1 \<longrightarrow> count_list (fetchedSince st st2) line \<le> 1)
    \<and> getDriverNames getDriver (begun @ finishAll (length lines)) lines st \<noteq> None"
proof -
  note a = getDriverNames_Some [OF assms(1)]
  note b = getDriverNames_Some [OF assms(2)]
  have perm: "names' = names"
    if "mset lines' = mset lines" "getDriverNames getDriver schedule' lines' st = Some (names', st')"
    for lines' schedule' names' st'
  proof -
    have "mset (map (driverDisplay getDriver st) lines') = mset (map (driverDisplay getDriver st) lines)"
      using that(1) by simp
    then have "sort (map (driverDisplay getDriver st) lines') = sort (map (driverDisplay getDriver st) lines)"
      by (intro properties_for_sort) simp_all
    then show ?thesis using getDriverNames_Some(1) [OF that(2)] a(1) by simp
  qed
  from a(3) obtain fs1 where fs1: "driverFetches st1 = driverFetches st @ fs1"
    "set fs1 \<subseteq> set lines" "\<forall>line. count_list lines line = 1 \<longrightarrow> count_list fs1 line \<le> 1"
    by blast
  from b(3) obtain fs2 where fs2: "driverFetches st2 = driverFetches st1 @ fs2"
    "set fs2 \<inter> dom (driverMap st1) = {}"
    by blast
  have second: "fetchedSince st1 st2 = fs2" by (simp add: fetchedSince_def fs2(1))
  have both: "fetchedSince st st2 = fs1 @ fs2" by (simp add: fetchedSince_def fs2(1) fs1(1))
  have none: "line \<notin> set fs2" if "line \<in> set lines" for line
    using that a(2) fs2(2) by auto
  have "count_list (fetchedSince st st2) line \<le> 1" if "count_list lines line = 1" for line
  proof -
    from that have "line \<in> set lines" by (metis count_list_0_iff zero_neq_one)
    then have "count_list fs2 line = 0" using none by (simp add: count_list_0_iff)
    with fs1(3) that show ?thesis unfolding both by simp
  qed
  moreover have "\<forall>line\<in>set lines. line \<notin> set (fetchedSince st1 st2)"
    unfolding second using none by blast
  moreover have "sorted names" using a(1) by simp
  moreover have "\<forall>lines' schedule' names' st'.
          mset lines' = mset lines \<and>
          getDriverNames getDriver schedule' lines' st = Some (names', st') \<longrightarrow> names' = names"
    using perm by blast
  ultimately show ?thesis
    using a(1) finishAll_returns [of getDriver begun lines st] by (intro conjI) blast+
qed

theorem getDriverNames_sorted_and_cached_witness:
  "getDriverNames (driverNumbered 4) [Lookup 1, Lookup 0, Store 0, Store 1]
       [''/api/driver/b'', ''/api/driver/a''] emptyCaches
     = Some (['' (4) Driver /api/driver/a'', '' (4) Driver /api/driver/b''],
             snd (the (getDriverNames (driverNumbered 4) [Lookup 1, Lookup 0, Store 0, Store 1]
                         [''/api/driver/b'', ''/api/driver/a''] emptyCaches)))
   \<and> getDriverNames (driverNumbered 4) [Lookup 0, Store 0] [''/api/driver/a'']
         (snd (the (getDriverNames (driverNumbered 4) [Lookup 1, Lookup 0, Store 0, Store 1]
                      [''/api/driver/b'', ''/api/driver/a''] emptyCaches)))
     = Some (['' (4) Driver /api/driver/a''],
             snd (the (getDriverNames (driverNumbered 4) [Lookup 0, Store 0] [''/api/driver/a'']
                (snd (the (getDriverNames (driverNumbered 4) [Lookup 1, Lookup 0, Store 0, Store 1]
                             [''/api/driver/b'', ''/api/driver/a''] emptyCaches))))))
   \<and> sorted ['' (4) Driver /api/driver/a'', '' (4) Driver /api/driver/b'']
   \<and> fetchedSince emptyCaches
         (snd (the (getDriverNames (driverNumbered 4) [Lookup 1, Lookup 0, Store 0, Store 1]
                      [''/api/driver/b'', ''/api/driver/a''] emptyCaches)))
       = [''/api/driver/a'', ''/api/driver/b'']
   \<and> fetchedSince
         (snd (the (getDriverNames (driverNumbered 4) [Lookup 1, Lookup 0, Store 0, Store 1]
                      [''/api/driver/b'', ''/api/driver/a''] emptyCaches)))
         (snd (the (getDriverNames (driverNumbered 4) [Lookup 0, Store 0] [''/api/driver/a'']
                (snd (the (getDriverNames (driverNumbered 4) [Lookup 1, Lookup 0, Store 0, Store 1]
                             [''/api/driver/b'', ''/api/driver/a''] emptyCaches))))))
       = []"
proof -
  let ?g = "driverNumbered 4"
  let ?l1 = "[''/api/driver/b'', ''/api/driver/a'']"
  let ?r1 = "getDriverNames ?g [Lookup 1, Lookup 0, Store 0, Store 1] ?l1 emptyCaches"
  let ?r2 = "getDriverNames ?g [Lookup 0, Store 0] [''/api/driver/a''] (snd (the ?r1))"
  have s1: "(case ?r1 of None \<Rightarrow> False | Some _ \<Rightarrow> True)" by code_simp
  have n1: "fst (the ?r1) = ['' (4) Driver /api/driver/a'', '' (4) Driver /api/driver/b'']"
    by code_simp
  have s2: "(case ?r2 of None \<Rightarrow> False | Some _ \<Rightarrow> True)" by code_simp
  have n2: "fst (the ?r2) = ['' (4) Driver /api/driver/a'']" by code_simp
  have f1: "fetchedSince emptyCaches (snd (the ?r1)) = [''/api/driver/a'', ''/api/driver/b'']"
    by code_simp
  have f2: "fetchedSince (snd (the ?r1)) (snd (the ?r2)) = []" by code_simp
  from s1 n1 have h1: "?r1 = Some (['' (4) Driver /api/driver/a'', '' (4) Driver /api/driver/b''],
                                  snd (the ?r1))"
    by (cases ?r1) auto
  from s2 n2 have h2: "?r2 = Some (['' (4) Driver /api/driver/a''], snd (the ?r2))"
    by (cases ?r2) auto
  from getDriverNames_sorted_and_cached [OF h1 h2]
  have "sorted ['' (4) Driver /api/driver/a'', '' (4) Driver /api/driver/b'']" by blast
  with h1 h2 f1 f2 show ?thesis by blast
qed

theorem repeated_identifier_counterexample:
  "(case getDriverNames (driverNumbered 4) [Lookup 0, Lookup 1, Store 0, Store 1]
           [''/api/driver/a'', ''/api/driver/a''] emptyCaches of
      None \<Rightarrow> False
    | Some (names, st1) \<Rightarrow>
        (case getDriverNames (driverNumbered 4) [Lookup 0, Store 0] [''/api/driver/a''] st1 of
           None \<Rightarrow> False
         | Some (names2, st2) \<Rightarrow>
             names = ['' (4) Driver /api/driver/a'', '' (4) Driver /api/driver/a'']
             \<and> names2 = ['' (4) Driver /api/driver/a'']
             \<and> fetchedSince emptyCaches st1 = [''/api/driver/a'', ''/api/driver/a'']
             \<and> fetchedSince st1 st2 = []
             \<and> count_list (fetchedSince emptyCaches st2) ''/api/driver/a'' = 2))"
  by code_simp

text \<open>
  C6. The specification: a child without content is left out, and no nil child is
  attached. The code: the branch for a season passes every slot of the slice of
  \<^verbatim>\<open>getEventNodes\<close> to \<^verbatim>\<open>AddChild\<close>, also the nil slot of an event without
  sessions; the branch for an event checks \<^verbatim>\<open>session != nil\<close>, this one does not.
\<close>

theorem expandSeason_attaches_nil:
  assumes "eventID \<in> set (EventoccurrenceUrls season)"
    and "SessionoccurrenceUrls (getEvent eventID) = []"
  shows "None \<in> set (nodeChildren (expandSeason getEvent blinked node season))"
proof -
  have "eventNode (getEvent eventID) = None"
    using assms(2) by (simp add: eventNode_def)
  then have "None \<in> set (getEventNodes getEvent season)"
    using assms(1) by (force simp: getEventNodes_def)
  then show ?thesis by (simp add: nodeChildren_expandSeason)
qed

theorem expandSeason_attaches_nil_witness:
  "''/api/event/1'' \<in> set (EventoccurrenceUrls \<lparr>season_Name = ''2019'', EventoccurrenceUrls = [''/api/event/1'']\<rparr>)
   \<and> SessionoccurrenceUrls \<lparr>OfficialName = ''Test'', SessionoccurrenceUrls = []\<rparr> = []
   \<and> nodeChildren (expandSeason (\<lambda>eventID. \<lparr>OfficialName = ''Test'', SessionoccurrenceUrls = []\<rparr>)
        True (NewTreeNode ''2019'')
        \<lparr>season_Name = ''2019'', EventoccurrenceUrls = [''/api/event/1'']\<rparr>) = [None]"
proof -
  let ?season = "\<lparr>season_Name = ''2019'', EventoccurrenceUrls = [''/api/event/1'']\<rparr>"
  let ?getEvent = "\<lambda>eventID :: string. \<lparr>OfficialName = ''Test'', SessionoccurrenceUrls = []\<rparr>"
  have h1: "''/api/event/1'' \<in> set (EventoccurrenceUrls ?season)" by simp
  have h2: "SessionoccurrenceUrls (?getEvent ''/api/event/1'') = []" by simp
  have e: "nodeChildren (expandSeason ?getEvent True (NewTreeNode ''2019'') ?season) = [None]"
    by (simp add: expandSeason_def getEventNodes_def eventNode_def NewTreeNode_def)
  show ?thesis
    using h1 e expandSeason_attaches_nil [of "''/api/event/1''" ?season ?getEvent, OF h1 h2]
    by simp
qed

text \<open>
  C7. The statement of the specification fails for a season: the branch for a season has no such marking,
  and a season without events keeps its text and stays selectable. What holds, for
  the expansion of an event: when \<^verbatim>\<open>getSessionNodes\<close> returns and none of the
  sessions it returns is a node with children, the event node becomes not
  selectable, red, its text followed by \<^verbatim>\<open> - NO CONTENT AVAILABLE\<close>, and no child
  is attached to it.
\<close>

theorem expandEvent_no_content:
  assumes "getSessionNodes getSession getSessionStreams srt event = Inr sessions"
    and "validSessions sessions = []"
  shows "\<exists>r. expandEvent getSession getSessionStreams srt blinked node event = Inr r
           \<and> \<not> nodeSelectable r
           \<and> nodeColor r = ColorRed
           \<and> nodeText r = nodeText node @ '' - NO CONTENT AVAILABLE''
           \<and> nodeChildren r = nodeChildren node"
  using assms by (simp add: expandEvent_def attachSessions_none)

theorem expandEvent_no_content_witness:
  "getSessionNodes (\<lambda>sessionID. \<lparr>session_Name = ''Race'', Status = ''upcoming'', Slug = ''race''\<rparr>)
     (\<lambda>slug. \<lparr>Objects = []\<rparr>) insertionSort
     \<lparr>OfficialName = ''GP'', SessionoccurrenceUrls = [''/api/session/1'']\<rparr> = Inr [None]
   \<and> validSessions [None] = []
   \<and> expandEvent (\<lambda>sessionID. \<lparr>session_Name = ''Race'', Status = ''upcoming'', Slug = ''race''\<rparr>)
        (\<lambda>slug. \<lparr>Objects = []\<rparr>) insertionSort True (NewTreeNode ''GP'')
        \<lparr>OfficialName = ''GP'', SessionoccurrenceUrls = [''/api/session/1'']\<rparr>
      = Inr (TreeNode ''GP - NO CONTENT AVAILABLE'' RefNil ColorRed False True [])"
proof -
  let ?gs = "\<lambda>sessionID :: string. \<lparr>session_Name = ''Race'', Status = ''upcoming'', Slug = ''race''\<rparr>"
  let ?gst = "\<lambda>slug :: string. \<lparr>Objects = []\<rparr>"
  let ?ev = "\<lparr>OfficialName = ''GP'', SessionoccurrenceUrls = [''/api/session/1'']\<rparr>"
  have h1: "getSessionNodes ?gs ?gst insertionSort ?ev = Inr [None]"
    by (simp add: getSessionNodes_def sessionNode_def)
  have h2: "validSessions [None] = []"
    by (simp add: validSessions_def)
  from expandEvent_no_content [OF h1 h2, of True "NewTreeNode ''GP''"]
  obtain r where r: "expandEvent ?gs ?gst insertionSort True (NewTreeNode ''GP'') ?ev = Inr r"
    by blast
  have "expandEvent ?gs ?gst insertionSort True (NewTreeNode ''GP'') ?ev
      = Inr (TreeNode ''GP - NO CONTENT AVAILABLE'' RefNil ColorRed False True [])"
    by (simp add: expandEvent_def h1 blinkNode_def NewTreeNode_def)
  with h1 h2 r show ?thesis by simp
qed

theorem season_without_events_counterexample:
  "expandSeason (\<lambda>eventID. \<lparr>OfficialName = ''Test'', SessionoccurrenceUrls = []\<rparr>) True
     (SetReference (RefSeason \<lparr>season_Name = ''2020'', EventoccurrenceUrls = []\<rparr>) (NewTreeNode ''2020''))
     \<lparr>season_Name = ''2020'', EventoccurrenceUrls = []\<rparr>
   = TreeNode ''2020'' (RefSeason \<lparr>season_Name = ''2020'', EventoccurrenceUrls = []\<rparr>)
       ColorWheat True True []"
  by (simp add: expandSeason_def getEventNodes_def blinkNode_def NewTreeNode_def)




text \<open>
  C9. One dispatch calls \<^verbatim>\<open>downloadAsset\<close> once when a token of one of its
  commands contains \<^verbatim>\<open>$file\<close>, and not at all otherwise, however many tokens and
  commands contain it.
\<close>

theorem dispatch_downloads_once:
  "length (downloads (dispatch getPlayableURL downloadAsset ctx)) =
     (if mentionsFile (Commands (CustomOptions ctx)) then 1 else 0)"
proof -
  let ?st = "\<lparr>fileLoaded = False, filepath = [], downloads = [], started = []\<rparr>"
  have "downloadsOk ?st" by (simp add: downloadsOk_def)
  from runCommands_state [OF this] show ?thesis
    by (simp add: dispatch_def downloadsOk_def)
qed

theorem dispatch_downloads_once_witness:
  "downloads (dispatch (\<lambda>epID. ''http://stream'') (\<lambda>url title. ''/tmp/race.m3u8'')
     \<lparr>EpID = ''/api/episode/1'',
      CustomOptions = \<lparr>command_Title = ''two'', Commands = [[''cp'', ''$file'', ''$file.bak''], [''mpv'', ''$file'']],
                        Watchphrase = [], CommandToWatch = 0\<rparr>,
      context_Title = ''Race''\<rparr>) = [(''http://stream'', ''Race'')]
   \<and> started (dispatch (\<lambda>epID. ''http://stream'') (\<lambda>url title. ''/tmp/race.m3u8'')
     \<lparr>EpID = ''/api/episode/1'',
      CustomOptions = \<lparr>command_Title = ''two'', Commands = [[''cp'', ''$file'', ''$file.bak''], [''mpv'', ''$file'']],
                        Watchphrase = [], CommandToWatch = 0\<rparr>,
      context_Title = ''Race''\<rparr>)
     = [[''cp'', ''/tmp/race.m3u8'', ''/tmp/race.m3u8.bak''], [''mpv'', ''/tmp/race.m3u8'']]
   \<and> downloads (dispatch (\<lambda>epID. ''http://stream'') (\<lambda>url title. ''/tmp/race.m3u8'')
     \<lparr>EpID = ''/api/episode/1'',
      CustomOptions = \<lparr>command_Title = ''none'', Commands = [[''mpv'', ''$url'']],
                        Watchphrase = [], CommandToWatch = 0\<rparr>,
      context_Title = ''Race''\<rparr>) = []"
proof -
  let ?d = "dispatch (\<lambda>epID. ''http://stream'') (\<lambda>url title. ''/tmp/race.m3u8'')"
  let ?two = "\<lparr>EpID = ''/api/episode/1'',
      CustomOptions = \<lparr>command_Title = ''two'', Commands = [[''cp'', ''$file'', ''$file.bak''], [''mpv'', ''$file'']],
                        Watchphrase = [], CommandToWatch = 0\<rparr>,
      context_Title = ''Race''\<rparr>"
  let ?none = "\<lparr>EpID = ''/api/episode/1'',
      CustomOptions = \<lparr>command_Title = ''none'', Commands = [[''mpv'', ''$url'']],
                        Watchphrase = [], CommandToWatch = 0\<rparr>,
      context_Title = ''Race''\<rparr>"
  have a: "downloads (?d ?two) = [(''http://stream'', ''Race'')]"
    and b: "started (?d ?two) = [[''cp'', ''/tmp/race.m3u8'', ''/tmp/race.m3u8.bak''], [''mpv'', ''/tmp/race.m3u8'']]"
    by (simp_all add: dispatch_def substituteToken_def Replace_def Let_def)
  have "length (downloads (?d ?none)) = 0"
    using dispatch_downloads_once [of "\<lambda>epID. ''http://stream''" "\<lambda>url title. ''/tmp/race.m3u8''" ?none]
    by (simp add: mentionsFile_def)
  then show ?thesis using a b by simp
qed

text \<open>
  C10. On an input of at least four bytes whose first four are decimal digits other
  than \<^verbatim>\<open>2018\<close> and \<^verbatim>\<open>2019\<close>, the unguarded function does not panic, the guarded one
  returns no error, and both return the same year and race number.
\<close>

theorem getYearAndRace_versions_agree:
  assumes "4 \<le> length input" and "list_all isDigit (take 4 input)"
    and "take 4 input \<noteq> ''2018''" and "take 4 input \<noteq> ''2019''"
  shows "\<exists>fullYear raceNumber.
           getYearAndRace input = Inr (fullYear, raceNumber) \<and>
           getYearAndRace_v2 input = (fullYear, raceNumber, None)"
proof -
  have "snd (Atoi (take 4 input)) = None"
    using assms(1,2) by (rule Atoi_take4_digits)
  with assms show ?thesis
    by (simp add: getYearAndRace_def getYearAndRace_v2_def Let_def)
qed

theorem getYearAndRace_versions_agree_witness:
  "4 \<le> length ''0501abc'' \<and> list_all isDigit (take 4 ''0501abc'')
   \<and> take 4 ''0501abc'' \<noteq> ''2018'' \<and> take 4 ''0501abc'' \<noteq> ''2019''
   \<and> getYearAndRace ''0501abc'' = Inr (''2005'', ''01'')
   \<and> getYearAndRace_v2 ''0501abc'' = (''2005'', ''01'', None)"
proof -
  have h1: "4 \<le> length ''0501abc''" and h2: "list_all isDigit (take 4 ''0501abc'')"
    and h3: "take 4 ''0501abc'' \<noteq> ''2018''" and h4: "take 4 ''0501abc'' \<noteq> ''2019''"
    by (simp_all add: isDigit_def)
  have e: "getYearAndRace ''0501abc'' = Inr (''2005'', ''01'')"
    by (simp add: getYearAndRace_def Atoi_def isDigit_def decimalVal_def digitVal_def)
  show ?thesis
    using h1 h2 h3 h4 e getYearAndRace_versions_agree [OF h1 h2 h3 h4] by auto
qed


end
